theory Spec2Isabelle
  imports Main "HOL-Library.Word" "HOL-Library.Sublist"
begin

section \<open>Machine types\<close>

text \<open>
  The driver's integers are the kernel's fixed-width types. \<open>u32\<close> arithmetic wraps
  modulo \<open>2 ^ 32\<close>, which is what the \<open>32 word\<close> operations do. \<open>size_t\<close> is taken
  at the width of a 64-bit kernel.
\<close>

type_synonym u8 = "8 word"
type_synonym u16 = "16 word"
type_synonym u32 = "32 word"
type_synonym size_t = "64 word"

section \<open>The stream synchronizer\<close>

text \<open>
  A buffer is the list of bytes readable from a pointer on; advancing the pointer drops
  bytes from the front. A read beyond the list, or a copy beyond the end of the
  destination array, is a \<open>fault\<close>. A loop that does not end has the value \<open>None\<close>.
\<close>

datatype fault = OutOfWindow | BufferOverflow

text \<open>\<open>struct m1ur_stream_context\<close>: the carry-over array of \<open>188 * 4\<close> bytes and its
  fill length. The back pointer to the character device is the packet sink; the blocks
  handed to it are collected in an output list.\<close>

record m1ur_stream_context =
  remain_buf :: "u8 list"
  remain_len :: size_t

text \<open>The inner \<open>while (true)\<close> loop of \<open>m1ur_device_stream_process\<close>: it returns the
  count \<open>i\<close> and the flag \<open>sync_remain\<close>.\<close>

partial_function (option) sync_scan ::
  "u8 list \<Rightarrow> u32 \<Rightarrow> u32 \<Rightarrow> (fault + u32 \<times> bool) option" where
  "sync_scan p remain i =
     (if (i + 1) * 188 \<le> remain then
        (if unat (i * 188) < length p then
           (if p ! unat (i * 188) \<noteq> 0x47 then Some (Inr (i, False))
            else sync_scan p remain (i + 1))
         else Some (Inl OutOfWindow))
      else Some (Inr (i, True)))"

declare sync_scan.simps [code]

text \<open>The outer \<open>while (remain)\<close> loop. \<open>out\<close> collects the blocks passed to
  \<open>ptx_chrdev_put_stream\<close>, in order.\<close>

partial_function (option) stream_loop ::
  "u8 list \<Rightarrow> u32 \<Rightarrow> u8 list list \<Rightarrow> (fault + u8 list \<times> u32 \<times> u8 list list) option" where
  "stream_loop p remain out =
     (if remain = 0 then Some (Inr (p, remain, out))
      else
        (case sync_scan p remain 0 of
           None \<Rightarrow> None
         | Some (Inl e) \<Rightarrow> Some (Inl e)
         | Some (Inr (i, sync_remain)) \<Rightarrow>
             if i < 4 then stream_loop (drop 1 p) (remain - 1) out
             else if length p < unat (188 * i) then Some (Inl OutOfWindow)
             else if sync_remain
               then Some (Inr (drop (unat (188 * i)) p, remain - 188 * i,
                               out @ [take (unat (188 * i)) p]))
               else stream_loop (drop (unat (188 * i)) p) (remain - 188 * i)
                      (out @ [take (unat (188 * i)) p])))"

declare stream_loop.simps [code]

definition m1ur_device_stream_process ::
  "u8 list \<Rightarrow> u32 \<Rightarrow> (fault + u8 list \<times> u32 \<times> u8 list list) option" where
  "m1ur_device_stream_process buf len = stream_loop buf len []"

text \<open>\<open>memcpy (dst + off, src, n)\<close> on arrays: the result is the new destination.\<close>

definition memcpy :: "u8 list \<Rightarrow> nat \<Rightarrow> u8 list \<Rightarrow> nat \<Rightarrow> fault + u8 list" where
  "memcpy dst off src n =
     (if length src < n then Inl OutOfWindow
      else if length dst < off + n then Inl BufferOverflow
      else Inr (take off dst @ take n src @ drop (off + n) dst))"

text \<open>The end of \<open>m1ur_device_stream_handler\<close>, from the second call of
  \<open>m1ur_device_stream_process\<close> on.\<close>

definition stream_handler_tail ::
  "m1ur_stream_context \<Rightarrow> u8 list \<Rightarrow> u32 \<Rightarrow> u8 list list
     \<Rightarrow> (fault + m1ur_stream_context \<times> u8 list list) option" where
  "stream_handler_tail ctx p remain out1 =
     (case m1ur_device_stream_process p remain of
        None \<Rightarrow> None
      | Some (Inl e) \<Rightarrow> Some (Inl e)
      | Some (Inr (p', remain', out2)) \<Rightarrow>
          if remain' \<noteq> 0 then
            (case memcpy (remain_buf ctx) 0 p' (unat remain') of
               Inl e \<Rightarrow> Some (Inl e)
             | Inr rb \<Rightarrow> Some (Inr (ctx\<lparr>remain_buf := rb, remain_len := ucast remain'\<rparr>,
                                     out1 @ out2)))
          else Some (Inr (ctx, out1 @ out2)))"

definition m1ur_device_stream_handler ::
  "m1ur_stream_context \<Rightarrow> u8 list \<Rightarrow> u32
     \<Rightarrow> (fault + m1ur_stream_context \<times> u8 list list) option" where
  "m1ur_device_stream_handler stream_ctx buf len =
     (let ctx_remain_len = (ucast (remain_len stream_ctx) :: u32) in
      if ctx_remain_len \<noteq> 0 then
        if 752 \<le> ctx_remain_len + len then
          (let t = 752 - ctx_remain_len in
           case memcpy (remain_buf stream_ctx) (unat ctx_remain_len) buf (unat t) of
             Inl e \<Rightarrow> Some (Inl e)
           | Inr rb \<Rightarrow>
               (case m1ur_device_stream_process rb 752 of
                  None \<Rightarrow> None
                | Some (Inl e) \<Rightarrow> Some (Inl e)
                | Some (Inr (ctx_remain_buf, ctx_remain_len', out1)) \<Rightarrow>
                    if ctx_remain_len' = 0
                    then stream_handler_tail (stream_ctx\<lparr>remain_buf := rb, remain_len := 0\<rparr>)
                           (drop (unat t) buf) (len - t) out1
                    else stream_handler_tail (stream_ctx\<lparr>remain_buf := rb, remain_len := 0\<rparr>)
                           buf len out1))
        else
          (case memcpy (remain_buf stream_ctx) (unat ctx_remain_len) buf (unat len) of
             Inl e \<Rightarrow> Some (Inl e)
           | Inr rb \<Rightarrow>
               Some (Inr (stream_ctx\<lparr>remain_buf := rb,
                                     remain_len := remain_len stream_ctx + ucast len\<rparr>, [])))
      else stream_handler_tail stream_ctx buf len [])"

text \<open>The transport calls the handler once per chunk, in order, on the same context.\<close>

fun feed :: "m1ur_stream_context \<Rightarrow> u8 list list
    \<Rightarrow> (fault + m1ur_stream_context \<times> u8 list list) option" where
  "feed ctx [] = Some (Inr (ctx, []))"
| "feed ctx (c # cs) =
     (case m1ur_device_stream_handler ctx c (of_nat (length c)) of
        None \<Rightarrow> None
      | Some (Inl e) \<Rightarrow> Some (Inl e)
      | Some (Inr (ctx', out)) \<Rightarrow>
          (case feed ctx' cs of
             None \<Rightarrow> None
           | Some (Inl e) \<Rightarrow> Some (Inl e)
           | Some (Inr (ctx'', out')) \<Rightarrow> Some (Inr (ctx'', out @ out'))))"

text \<open>The context as \<open>kzalloc\<close> and \<open>m1ur_chrdev_start_capture\<close> leave it.\<close>

definition fresh_ctx :: m1ur_stream_context where
  "fresh_ctx = \<lparr>remain_buf = replicate 752 0, remain_len = 0\<rparr>"

section \<open>The control plane\<close>

text \<open>
  The chip drivers, the bridge and \<open>msleep\<close> are outside this file. Every call the
  driver makes is appended to a trace; the hardware is a parameter that answers a call
  from the trace so far: a return code, and the value stored through the call's output
  pointer, if it stores one.
\<close>

datatype ptx_system_type = PTX_UNSPECIFIED_SYSTEM | PTX_ISDB_T_SYSTEM | PTX_ISDB_S_SYSTEM

datatype demod = Tc90522_t | Tc90522_s

datatype hw_call =
    Tc90522_write_reg demod u8 u8
  | Tc90522_set_agc_t bool
  | Tc90522_set_agc_s bool
  | Tc90522_sleep_t bool
  | Tc90522_sleep_s bool
  | Tc90522_enable_ts_pins_t bool
  | Tc90522_enable_ts_pins_s bool
  | Tc90522_tmcc_get_tsid_s u16
  | Tc90522_set_tsid_s u16
  | Tc90522_get_tsid_s
  | R850_wakeup
  | R850_set_frequency u32
  | R850_is_pll_locked
  | Rt710_set_params u32 u32 u32
  | Rt710_is_pll_locked
  | Rt710_get_rf_signal_strength
  | It930x_purge_psb int
  | Itedtv_bus_start_streaming
  | Itedtv_bus_stop_streaming
  | Msleep nat

record hw_reply =
  reply_ret :: int
  reply_flag :: "bool option"
  reply_id :: "u16 option"

type_synonym hardware = "hw_call list \<Rightarrow> hw_call \<Rightarrow> hw_reply"

definition EAGAIN :: int where "EAGAIN = 11"
definition EINVAL :: int where "EINVAL = 22"

text \<open>The device: the availability flag, the character device's current system and the
  stream context.\<close>

record m1ur_device =
  available :: bool
  current_system :: ptx_system_type
  stream_ctx :: m1ur_stream_context

text \<open>A run of calls, each followed by \<open>if (ret) break;\<close>.\<close>

fun run_steps :: "hardware \<Rightarrow> hw_call list \<Rightarrow> hw_call list \<Rightarrow> int \<times> hw_call list" where
  "run_steps hw tr [] = (0, tr)"
| "run_steps hw tr (c # cs) =
     (if reply_ret (hw tr c) \<noteq> 0 then (reply_ret (hw tr c), tr @ [c])
      else run_steps hw (tr @ [c]) cs)"

text \<open>\<open>while (i--)\<close> around \<open>r850_is_pll_locked\<close> or \<open>rt710_is_pll_locked\<close>. The local
  \<open>tuner_locked\<close> keeps its value when a call stores nothing.\<close>

fun pll_poll :: "hardware \<Rightarrow> hw_call \<Rightarrow> nat \<Rightarrow> int \<Rightarrow> bool \<Rightarrow> hw_call list
    \<Rightarrow> int \<times> bool \<times> hw_call list" where
  "pll_poll hw c 0 ret tuner_locked tr = (ret, tuner_locked, tr)"
| "pll_poll hw c (Suc i) ret tuner_locked tr =
     (let ret' = reply_ret (hw tr c);
          locked' = (case reply_flag (hw tr c) of Some b \<Rightarrow> b | None \<Rightarrow> tuner_locked)
      in if ret' = 0 \<and> locked' then (ret', locked', tr @ [c])
         else pll_poll hw c i ret' locked' (tr @ [c, Msleep 10]))"

definition tune_t_setup :: "u32 \<Rightarrow> hw_call list" where
  "tune_t_setup freq =
     [Tc90522_write_reg Tc90522_t 0x47 0x30,
      Tc90522_set_agc_t False,
      Tc90522_sleep_s True,
      Tc90522_write_reg Tc90522_t 0x0e 0x77,
      Tc90522_write_reg Tc90522_t 0x0f 0x10,
      Tc90522_write_reg Tc90522_t 0x71 0x20,
      Tc90522_sleep_t False,
      Tc90522_write_reg Tc90522_t 0x76 0x0c,
      Tc90522_write_reg Tc90522_t 0x1f 0x30,
      R850_wakeup,
      R850_set_frequency freq]"

definition tune_t_finish :: "hw_call list" where
  "tune_t_finish =
     [Tc90522_set_agc_t True,
      Tc90522_write_reg Tc90522_t 0x71 0x01,
      Tc90522_write_reg Tc90522_t 0x72 0x25,
      Tc90522_write_reg Tc90522_t 0x75 0x00]"

definition tune_s_setup :: "u32 \<Rightarrow> hw_call list" where
  "tune_s_setup freq =
     [Tc90522_set_agc_s False,
      Tc90522_write_reg Tc90522_t 0x0e 0x11,
      Tc90522_write_reg Tc90522_t 0x0f 0x70,
      Tc90522_sleep_t True,
      Tc90522_write_reg Tc90522_s 0x07 0x77,
      Tc90522_write_reg Tc90522_s 0x08 0x10,
      Tc90522_sleep_s False,
      Tc90522_write_reg Tc90522_s 0x04 0x02,
      Tc90522_write_reg Tc90522_s 0x8e 0x02,
      Tc90522_write_reg Tc90522_t 0x1f 0x20,
      Rt710_set_params freq 28860 4]"

text \<open>\<open>m1ur_chrdev_tune\<close>. \<open>locked0\<close> is the value the uninitialised local
  \<open>tuner_locked\<close> happens to hold.\<close>

definition m1ur_chrdev_tune ::
  "hardware \<Rightarrow> bool \<Rightarrow> hw_call list \<Rightarrow> ptx_system_type \<Rightarrow> u32 \<Rightarrow> int \<times> hw_call list" where
  "m1ur_chrdev_tune hw locked0 tr system freq =
     (case system of
        PTX_ISDB_T_SYSTEM \<Rightarrow>
          (case run_steps hw tr (tune_t_setup freq) of (ret, tr1) \<Rightarrow>
             if ret \<noteq> 0 then (ret, tr1)
             else (case pll_poll hw R850_is_pll_locked 50 ret locked0 tr1 of
               (ret, tuner_locked, tr2) \<Rightarrow>
                 if ret \<noteq> 0 then (ret, tr2)
                 else if \<not> tuner_locked then (- EAGAIN, tr2)
                 else (case run_steps hw tr2 tune_t_finish of (ret, tr3) \<Rightarrow>
                   if ret \<noteq> 0 then (ret, tr3) else (ret, tr3 @ [Msleep 100]))))
      | PTX_ISDB_S_SYSTEM \<Rightarrow>
          (case run_steps hw tr (tune_s_setup freq) of (ret, tr1) \<Rightarrow>
             if ret \<noteq> 0 then (ret, tr1)
             else (case pll_poll hw Rt710_is_pll_locked 50 ret locked0 tr1 of
               (ret, tuner_locked, tr2) \<Rightarrow>
                 if ret \<noteq> 0 then (ret, tr2)
                 else if \<not> tuner_locked then (- EAGAIN, tr2)
                 else run_steps hw (tr2 @ [Rt710_get_rf_signal_strength])
                        [Tc90522_set_agc_s True]))
      | PTX_UNSPECIFIED_SYSTEM \<Rightarrow> (- EINVAL, tr))"





definition m1ur_chrdev_start_capture ::
  "hardware \<Rightarrow> int \<Rightarrow> m1ur_device \<Rightarrow> hw_call list \<Rightarrow> int \<times> m1ur_device \<times> hw_call list" where
  "m1ur_chrdev_start_capture hw psb_purge_timeout dev tr =
     (if reply_ret (hw tr (It930x_purge_psb psb_purge_timeout)) \<noteq> 0
      then (reply_ret (hw tr (It930x_purge_psb psb_purge_timeout)), dev,
            tr @ [It930x_purge_psb psb_purge_timeout])
      else
        (let tr1 = tr @ [It930x_purge_psb psb_purge_timeout];
             pins = (case current_system dev of
                       PTX_ISDB_T_SYSTEM \<Rightarrow> [Tc90522_enable_ts_pins_t True]
                     | PTX_ISDB_S_SYSTEM \<Rightarrow> [Tc90522_enable_ts_pins_s True]
                     | PTX_UNSPECIFIED_SYSTEM \<Rightarrow> []);
             unpins = (case current_system dev of
                       PTX_ISDB_T_SYSTEM \<Rightarrow> [Tc90522_enable_ts_pins_t False]
                     | PTX_ISDB_S_SYSTEM \<Rightarrow> [Tc90522_enable_ts_pins_s False]
                     | PTX_UNSPECIFIED_SYSTEM \<Rightarrow> [])
         in (case run_steps hw tr1 pins of (ret, tr2) \<Rightarrow>
               if ret \<noteq> 0 then (ret, dev, tr2 @ unpins)
               else
                 (let dev' = dev\<lparr>stream_ctx := (stream_ctx dev)\<lparr>remain_len := 0\<rparr>\<rparr>;
                      ret' = reply_ret (hw tr2 Itedtv_bus_start_streaming);
                      tr3 = tr2 @ [Itedtv_bus_start_streaming]
                  in if ret' \<noteq> 0 then (ret', dev', tr3 @ unpins) else (0, dev', tr3)))))"

definition m1ur_chrdev_stop_capture ::
  "hardware \<Rightarrow> m1ur_device \<Rightarrow> hw_call list \<Rightarrow> int \<times> m1ur_device \<times> hw_call list" where
  "m1ur_chrdev_stop_capture hw dev tr =
     (let tr1 = tr @ [Itedtv_bus_stop_streaming] in
      if \<not> available dev then (0, dev, tr1)
      else (case current_system dev of
        PTX_ISDB_T_SYSTEM \<Rightarrow> (0, dev, tr1 @ [Tc90522_enable_ts_pins_t False])
      | PTX_ISDB_S_SYSTEM \<Rightarrow> (0, dev, tr1 @ [Tc90522_enable_ts_pins_s False])
      | PTX_UNSPECIFIED_SYSTEM \<Rightarrow> (0, dev, tr1)))"

definition m1ur_chrdev_set_capture ::
  "hardware \<Rightarrow> int \<Rightarrow> m1ur_device \<Rightarrow> hw_call list \<Rightarrow> bool \<Rightarrow> int \<times> m1ur_device \<times> hw_call list" where
  "m1ur_chrdev_set_capture hw psb_purge_timeout dev tr status =
     (if status then m1ur_chrdev_start_capture hw psb_purge_timeout dev tr
      else m1ur_chrdev_stop_capture hw dev tr)"

section \<open>Notions used to state the properties\<close>

text \<open>A transport-stream block: a positive number of whole 188-byte packets, each
  starting with the sync byte.\<close>

definition ts_block :: "u8 list \<Rightarrow> bool" where
  "ts_block b \<longleftrightarrow>
     0 < length b \<and> length b mod 188 = 0 \<and>
     list_all (\<lambda>k. b ! (188 * k) = 0x47) [0..<length b div 188]"

text \<open>An aligned stream: the sync byte stands at every multiple of 188, also at the
  start of a last, incomplete packet.\<close>

definition ts_aligned :: "u8 list \<Rightarrow> bool" where
  "ts_aligned xs \<longleftrightarrow> list_all (\<lambda>k. xs ! (188 * k) = 0x47) [0..<(length xs + 187) div 188]"

text \<open>The first window length at which the product \<open>(i + 1) * 188\<close> of the scan leaves
  the range of \<open>u32\<close> (\<open>22845570 * 188\<close>), and the first chunk length at which the sum
  \<open>ctx_remain_len + len\<close> of the handler can (\<open>2 ^ 32 - 752\<close>).\<close>

definition window_limit :: nat where
  "window_limit = 4294967160"

definition chunk_limit :: nat where
  "chunk_limit = 4294966544"

text \<open>The context between two calls of the handler, and the bytes it carries over.\<close>

definition ctx_ok :: "m1ur_stream_context \<Rightarrow> bool" where
  "ctx_ok ctx \<longleftrightarrow> length (remain_buf ctx) = 752 \<and> unat (remain_len ctx) < 752"

definition carry :: "m1ur_stream_context \<Rightarrow> u8 list" where
  "carry ctx = take (unat (remain_len ctx)) (remain_buf ctx)"

text \<open>What the two loops compute on a window where the \<open>u32\<close> arithmetic does not wrap,
  as total functions on lists: the number of leading whole packets that start with the
  sync byte, and the blocks and the rest of a synchronization pass.\<close>

function marker_run :: "u8 list \<Rightarrow> nat" where
  "marker_run p =
     (if 188 \<le> length p \<and> p ! 0 = 0x47 then Suc (marker_run (drop 188 p)) else 0)"
  by pat_completeness auto
termination
  by (relation "measure length") auto

declare marker_run.simps [simp del]

function process_spec :: "u8 list \<Rightarrow> u8 list list \<times> u8 list" where
  "process_spec p =
     (if p = [] then ([], [])
      else if marker_run p < 4 then process_spec (drop 1 p)
      else if length p < 188 * (marker_run p + 1)
        then ([take (188 * marker_run p) p], drop (188 * marker_run p) p)
        else (case process_spec (drop (188 * marker_run p) p) of
                (bs, rest) \<Rightarrow> (take (188 * marker_run p) p # bs, rest)))"
  by pat_completeness auto
termination
  by (relation "measure length") auto

declare process_spec.simps [simp del]

definition handler_out :: "u8 list \<Rightarrow> u8 list \<Rightarrow> u8 list list" where
  "handler_out c b =
     (if c = [] then fst (process_spec b)
      else if 752 \<le> length c + length b
        then fst (process_spec (c @ take (752 - length c) b)) @
             fst (process_spec (drop (752 - length c) b))
        else [])"

definition handler_carry :: "u8 list \<Rightarrow> u8 list \<Rightarrow> u8 list" where
  "handler_carry c b =
     (if c = [] then snd (process_spec b)
      else if 752 \<le> length c + length b
        then snd (process_spec (drop (752 - length c) b))
        else c @ b)"





text \<open>The trace of \<open>n\<close> poll attempts that each end in the 10 ms sleep.\<close>

abbreviation attempts :: "hw_call \<Rightarrow> nat \<Rightarrow> hw_call list" where
  "attempts c n \<equiv> concat (replicate n [c, Msleep 10])"


section \<open>Concrete inputs\<close>

text \<open>A packet with payload byte \<open>x\<close>.\<close>

definition pkt :: "u8 \<Rightarrow> u8 list" where
  "pkt x = 0x47 # replicate 187 x"

text \<open>Two chunks of 1604 and 1592 bytes that cut an aligned stream of 17 packets inside
  its ninth packet.\<close>

definition chunk_a :: "u8 list" where
  "chunk_a = concat (map pkt [1, 2, 3, 4, 5, 6, 7, 8]) @ take 100 (pkt 9)"

definition chunk_b :: "u8 list" where
  "chunk_b = drop 100 (pkt 9) @ concat (map pkt [10, 11, 12, 13, 14, 15, 16, 17])"





definition ctx_one :: m1ur_stream_context where
  "ctx_one = \<lparr>remain_buf = 0x47 # replicate 751 0, remain_len = 1\<rparr>"


text \<open>The context that holds one byte, after three packets have been appended to it.\<close>

definition ctx_kept :: m1ur_stream_context where
  "ctx_kept = \<lparr>remain_buf = 0x47 # concat (map pkt [1, 2, 3]) @ replicate 187 0,
                remain_len = 565\<rparr>"

text \<open>A window of 4294967161 bytes: 22845570 packets with payload 0 and the sync byte of
  a further one.\<close>

definition wrap_window :: "u8 list" where
  "wrap_window = pkt 0 @ concat (replicate 22845569 (pkt 0)) @ [0x47]"

text \<open>Hardware on which every call succeeds and every tuner reports lock; on which no
  tuner ever reports lock; on which the first lock query of the terrestrial tuner fails;
  on which every lock query fails; on which a tuner answers its first lock query with
  "not locked" and fails every later one; on which the first read-back of the transport
  ID delivers the ID 0x4011 and every later one fails.\<close>

definition hw_ok :: hardware where
  "hw_ok tr c = \<lparr>reply_ret = 0, reply_flag = Some True, reply_id = Some 0x4010\<rparr>"

definition hw_unlocked :: hardware where
  "hw_unlocked tr c = \<lparr>reply_ret = 0, reply_flag = Some False, reply_id = None\<rparr>"

definition hw_flaky :: hardware where
  "hw_flaky tr c =
     (if c = R850_is_pll_locked \<and> R850_is_pll_locked \<notin> set tr
      then \<lparr>reply_ret = - 5, reply_flag = None, reply_id = None\<rparr>
      else \<lparr>reply_ret = 0, reply_flag = Some True, reply_id = None\<rparr>)"

definition hw_pll_dead :: hardware where
  "hw_pll_dead tr c =
     (if c = R850_is_pll_locked \<or> c = Rt710_is_pll_locked
      then \<lparr>reply_ret = - 5, reply_flag = None, reply_id = None\<rparr>
      else \<lparr>reply_ret = 0, reply_flag = None, reply_id = None\<rparr>)"

definition hw_pll_lost :: hardware where
  "hw_pll_lost tr c =
     (if c = R850_is_pll_locked \<or> c = Rt710_is_pll_locked then
        (if c \<in> set tr
         then \<lparr>reply_ret = - 5, reply_flag = None, reply_id = None\<rparr>
         else \<lparr>reply_ret = 0, reply_flag = Some False, reply_id = None\<rparr>)
      else \<lparr>reply_ret = 0, reply_flag = None, reply_id = None\<rparr>)"


text \<open>A device that has been marked unavailable, and one tuned to the satellite system.\<close>

definition dev_gone :: m1ur_device where
  "dev_gone = \<lparr>available = False, current_system = PTX_ISDB_T_SYSTEM, stream_ctx = fresh_ctx\<rparr>"


section \<open>The synchronizer on windows below the wrap-around limit\<close>

lemma marker_run_bound: "188 * marker_run p \<le> length p"
proof (induction p rule: marker_run.induct)
  case (1 p)
  show ?case
  proof (cases "188 \<le> length p \<and> p ! 0 = 0x47")
    case True
    with 1 have "188 * marker_run (drop 188 p) \<le> length p - 188" by simp
    moreover from True have "188 \<le> length p" by simp
    ultimately have "188 * Suc (marker_run (drop 188 p)) \<le> length p" by arith
    with True show ?thesis by (subst marker_run.simps) (simp del: mult_Suc_right)
  next
    case False
    then have "marker_run p = 0" by (subst marker_run.simps) auto
    then show ?thesis by simp
  qed
qed

lemma marker_run_markers: "j < marker_run p \<Longrightarrow> p ! (188 * j) = 0x47"
proof (induction p arbitrary: j rule: marker_run.induct)
  case (1 p)
  show ?case
  proof (cases "188 \<le> length p \<and> p ! 0 = 0x47")
    case True
    then have mr: "marker_run p = Suc (marker_run (drop 188 p))"
      by (subst marker_run.simps) simp
    show ?thesis
    proof (cases j)
      case 0
      with True show ?thesis by simp
    next
      case (Suc j')
      with "1.prems" mr have "j' < marker_run (drop 188 p)" by simp
      from "1.IH"[OF True this] have "drop 188 p ! (188 * j') = 0x47" .
      moreover have "188 + 188 * j' \<le> length p"
        using marker_run_bound[of "drop 188 p"] \<open>j' < marker_run (drop 188 p)\<close> True by simp
      ultimately show ?thesis using Suc by simp
    qed
  next
    case False
    then have "marker_run p = 0" by (subst marker_run.simps) simp
    with "1.prems" show ?thesis by simp
  qed
qed

lemma u32_of_nat: "n < 4294967296 \<Longrightarrow> unat (of_nat n :: u32) = n"
  by (simp add: unat_of_nat)

lemma u32_slot: "k \<le> 22845570 \<Longrightarrow> unat ((of_nat k :: u32) * 188) = 188 * k"
proof -
  assume k: "k \<le> 22845570"
  have "(of_nat k :: u32) * 188 = of_nat (188 * k)" by simp
  moreover have "188 * k < 4294967296" using k by arith
  ultimately show ?thesis by (simp only: u32_of_nat)
qed

lemma u32_slot': "k \<le> 22845570 \<Longrightarrow> unat (188 * (of_nat k :: u32)) = 188 * k"
  using u32_slot[of k] by (simp add: mult.commute)

lemma u32_slot_next: "k < 22845570 \<Longrightarrow> unat (((of_nat k :: u32) + 1) * 188) = 188 * (k + 1)"
proof -
  assume k: "k < 22845570"
  have "((of_nat k :: u32) + 1) * 188 = of_nat (188 * (k + 1))" by (simp add: algebra_simps)
  moreover have "188 * (k + 1) < 4294967296" using k by arith
  ultimately show ?thesis by (simp only: u32_of_nat)
qed

lemma sync_scan_run:
  assumes len: "length p = unat remain" and lim: "unat remain < window_limit"
  shows "188 * k \<le> length p \<Longrightarrow>
         sync_scan p remain (of_nat k) =
           Some (Inr (of_nat (k + marker_run (drop (188 * k) p)),
                      length p < 188 * (k + marker_run (drop (188 * k) p) + 1)))"
proof (induction "length p - 188 * k" arbitrary: k rule: less_induct)
  case less
  from less.prems lim len have k: "k < 22845570" by (simp add: window_limit_def)
  have nxt: "unat (((of_nat k :: u32) + 1) * 188) = 188 * (k + 1)" by (rule u32_slot_next[OF k])
  have cur: "unat ((of_nat k :: u32) * 188) = 188 * k" using k by (simp add: u32_slot)
  have chk: "((of_nat k :: u32) + 1) * 188 \<le> remain \<longleftrightarrow> 188 * (k + 1) \<le> length p"
    by (simp only: word_le_nat_alt nxt len)
  show ?case
  proof (cases "188 * (k + 1) \<le> length p")
    case False
    then have "length (drop (188 * k) p) < 188" by simp
    then have "marker_run (drop (188 * k) p) = 0"
      by (subst marker_run.simps) simp
    with False chk show ?thesis by (subst sync_scan.simps) simp
  next
    case True
    then have inw: "188 * k < length p" by simp
    show ?thesis
    proof (cases "p ! (188 * k) = 0x47")
      case False
      then have "marker_run (drop (188 * k) p) = 0"
        using inw by (subst marker_run.simps) simp
      with False True chk cur inw show ?thesis by (subst sync_scan.simps) simp
    next
      case m: True
      have mr: "marker_run (drop (188 * k) p) = Suc (marker_run (drop (188 * (k + 1)) p))"
        using True m inw by (subst marker_run.simps) (simp add: add.commute)
      have "sync_scan p remain (of_nat k) = sync_scan p remain (of_nat k + 1)"
        using m True chk cur inw by (subst sync_scan.simps) simp
      also have "\<dots> = sync_scan p remain (of_nat (k + 1))" by (simp add: add.commute)
      also have "\<dots> = Some (Inr (of_nat (k + 1 + marker_run (drop (188 * (k + 1)) p)),
                      length p < 188 * (k + 1 + marker_run (drop (188 * (k + 1)) p) + 1)))"
        using True by (intro less.hyps) simp_all
      finally show ?thesis using mr by simp
    qed
  qed
qed

lemma marker_run_0: "marker_run [] = 0"
  by (subst marker_run.simps) simp

lemma stream_loop_spec:
  "length p = unat remain \<Longrightarrow> unat remain < window_limit \<Longrightarrow>
   stream_loop p remain out =
     Some (Inr (snd (process_spec p), of_nat (length (snd (process_spec p))),
                out @ fst (process_spec p)))"
proof (induction p arbitrary: remain out rule: process_spec.induct)
  case (1 p)
  note len = "1.prems"(1) and lim = "1.prems"(2)
  show ?case
  proof (cases "p = []")
    case True
    with len have "remain = 0" by (simp add: unat_eq_0)
    moreover have "process_spec [] = ([], [])" by (subst process_spec.simps) simp
    ultimately show ?thesis using True
      by (subst stream_loop.simps) simp
  next
    case ne: False
    with len have r0: "remain \<noteq> 0" by auto
    let ?r = "marker_run p"
    have rb: "188 * ?r \<le> length p" by (rule marker_run_bound)
    with len lim have rk: "?r < 22845570" by (simp add: window_limit_def)
    have scan: "sync_scan p remain 0 = Some (Inr (of_nat ?r, length p < 188 * (?r + 1)))"
      using sync_scan_run[OF len lim, of 0] by simp
    have r4: "(of_nat ?r :: u32) < 4 \<longleftrightarrow> ?r < 4"
      using rk by (simp add: word_less_nat_alt u32_of_nat)
    have n: "unat (188 * (of_nat ?r :: u32)) = 188 * ?r"
      using rk by (simp add: u32_slot')
    show ?thesis
    proof (cases "?r < 4")
      case True
      have l1: "length (drop 1 p) = unat (remain - 1)"
        using len r0 by (simp add: unat_minus_one)
      have l2: "unat (remain - 1) < window_limit"
        using lim r0 by (simp add: unat_minus_one)
      have "stream_loop p remain out = stream_loop (drop 1 p) (remain - 1) out"
        using r0 scan r4 True by (subst stream_loop.simps) simp
      also note "1.IH"(1)[OF ne True l1 l2]
      finally have "stream_loop p remain out =
        Some (Inr (snd (process_spec (drop 1 p)), of_nat (length (snd (process_spec (drop 1 p)))),
                   out @ fst (process_spec (drop 1 p))))" .
      moreover have "process_spec p = process_spec (drop 1 p)"
        using ne True by (subst process_spec.simps) simp
      ultimately show ?thesis by simp
    next
      case ge: False
      have sub: "unat (remain - 188 * of_nat ?r) = length p - 188 * ?r"
        using len rb n by (simp add: unat_sub word_le_nat_alt)
      show ?thesis
      proof (cases "length p < 188 * (?r + 1)")
        case True
        have "stream_loop p remain out =
              Some (Inr (drop (188 * ?r) p, remain - 188 * of_nat ?r, out @ [take (188 * ?r) p]))"
          using r0 scan r4 ge True n rb by (subst stream_loop.simps) simp
        moreover have "process_spec p = ([take (188 * ?r) p], drop (188 * ?r) p)"
          using ne ge True by (subst process_spec.simps) simp
        moreover have "remain - 188 * of_nat ?r = of_nat (length (drop (188 * ?r) p))"
        proof -
          have "of_nat (unat (remain - 188 * of_nat ?r)) = remain - 188 * of_nat ?r" by simp
          then show ?thesis by (simp only: sub length_drop)
        qed
        ultimately show ?thesis by simp
      next
        case False
        let ?p' = "drop (188 * ?r) p"
        let ?remain' = "remain - 188 * of_nat ?r"
        have l1: "length ?p' = unat ?remain'" using sub by simp
        have l2: "unat ?remain' < window_limit" using sub len lim by simp
        have "stream_loop p remain out = stream_loop ?p' ?remain' (out @ [take (188 * ?r) p])"
          using r0 scan r4 ge False n rb by (subst stream_loop.simps) simp
        also note "1.IH"(2)[OF ne ge False l1 l2]
        finally have "stream_loop p remain out =
          Some (Inr (snd (process_spec ?p'), of_nat (length (snd (process_spec ?p'))),
                     (out @ [take (188 * ?r) p]) @ fst (process_spec ?p')))" .
        moreover have "process_spec p =
            (take (188 * ?r) p # fst (process_spec ?p'), snd (process_spec ?p'))"
          using ne ge False by (subst process_spec.simps) (simp add: case_prod_beta)
        ultimately show ?thesis by simp
      qed
    qed
  qed
qed

lemma ts_aligned_iff: "ts_aligned xs \<longleftrightarrow> (\<forall>k. 188 * k < length xs \<longrightarrow> xs ! (188 * k) = 0x47)"
proof -
  have "\<And>k. k < (length xs + 187) div 188 \<longleftrightarrow> 188 * k < length xs" by arith
  then show ?thesis by (auto simp: ts_aligned_def list_all_iff)
qed

lemma ts_aligned_drop: "ts_aligned xs \<Longrightarrow> ts_aligned (drop (188 * j) xs)"
  unfolding ts_aligned_iff
proof (intro allI impI)
  fix k
  assume a: "\<forall>k. 188 * k < length xs \<longrightarrow> xs ! (188 * k) = 0x47"
    and k: "188 * k < length (drop (188 * j) xs)"
  then have "188 * (j + k) < length xs" by simp
  with a have "xs ! (188 * (j + k)) = 0x47" by blast
  moreover have "drop (188 * j) xs ! (188 * k) = xs ! (188 * j + 188 * k)"
    using k by simp
  ultimately show "drop (188 * j) xs ! (188 * k) = 0x47" by (simp add: distrib_left)
qed

lemma marker_run_aligned: "ts_aligned p \<Longrightarrow> marker_run p = length p div 188"
proof (induction p rule: marker_run.induct)
  case (1 p)
  show ?case
  proof (cases "188 \<le> length p")
    case True
    from "1.prems" have "188 * 0 < length p \<longrightarrow> p ! (188 * 0) = 0x47"
      unfolding ts_aligned_iff by blast
    with True have z: "p ! 0 = 0x47" by auto
    have "ts_aligned (drop 188 p)" using ts_aligned_drop[OF "1.prems", of 1] by simp
    with "1.IH" True z have "marker_run (drop 188 p) = (length p - 188) div 188" by simp
    moreover have "marker_run p = Suc (marker_run (drop 188 p))"
      using True z by (subst marker_run.simps) simp
    ultimately show ?thesis using True by (simp add: le_div_geq)
  next
    case False
    then have "marker_run p = 0" by (subst marker_run.simps) simp
    with False show ?thesis by simp
  qed
qed

lemma marker_run_le: "marker_run p \<le> length p div 188"
  using marker_run_bound[of p] by (simp add: less_eq_div_iff_mult_less_eq mult.commute)

lemma ts_block_take:
  assumes "4 \<le> marker_run p"
  shows "ts_block (take (188 * marker_run p) p)"
proof -
  have b: "188 * marker_run p \<le> length p" by (rule marker_run_bound)
  then have l: "length (take (188 * marker_run p) p) = 188 * marker_run p" by simp
  have "\<And>k. k < marker_run p \<Longrightarrow> take (188 * marker_run p) p ! (188 * k) = 0x47"
    by (simp add: marker_run_markers)
  with assms show ?thesis
    unfolding ts_block_def l by (simp add: list_all_iff)
qed

lemma process_spec_blocks: "\<forall>b\<in>set (fst (process_spec p)). ts_block b"
proof (induction p rule: process_spec.induct)
  case (1 p)
  show ?case
  proof (cases "p = []")
    case True
    then show ?thesis by (subst process_spec.simps) simp
  next
    case ne: False
    show ?thesis
    proof (cases "marker_run p < 4")
      case True
      have "process_spec p = process_spec (drop 1 p)"
        using ne True by (subst process_spec.simps) simp
      with "1.IH"(1)[OF ne True] show ?thesis by simp
    next
      case ge: False
      then have blk: "ts_block (take (188 * marker_run p) p)" by (intro ts_block_take) simp
      show ?thesis
      proof (cases "length p < 188 * (marker_run p + 1)")
        case True
        have "process_spec p = ([take (188 * marker_run p) p], drop (188 * marker_run p) p)"
          using ne ge True by (subst process_spec.simps) simp
        with blk show ?thesis by simp
      next
        case False
        have "process_spec p =
            (take (188 * marker_run p) p # fst (process_spec (drop (188 * marker_run p) p)),
             snd (process_spec (drop (188 * marker_run p) p)))"
          using ne ge False by (subst process_spec.simps) (simp add: case_prod_beta)
        with blk "1.IH"(2)[OF ne ge False] show ?thesis by simp
      qed
    qed
  qed
qed

lemma process_spec_rest: "length (snd (process_spec p)) < 188 \<and> suffix (snd (process_spec p)) p"
proof (induction p rule: process_spec.induct)
  case (1 p)
  show ?case
  proof (cases "p = []")
    case True
    then show ?thesis by (subst (1 2) process_spec.simps) simp
  next
    case ne: False
    show ?thesis
    proof (cases "marker_run p < 4")
      case True
      have "process_spec p = process_spec (drop 1 p)"
        using ne True by (subst process_spec.simps) simp
      with "1.IH"(1)[OF ne True] show ?thesis
        by (auto intro: suffix_order.trans suffix_drop)
    next
      case ge: False
      show ?thesis
      proof (cases "length p < 188 * (marker_run p + 1)")
        case True
        have "process_spec p = ([take (188 * marker_run p) p], drop (188 * marker_run p) p)"
          using ne ge True by (subst process_spec.simps) simp
        with True show ?thesis by (auto simp: suffix_drop)
      next
        case False
        have "process_spec p =
            (take (188 * marker_run p) p # fst (process_spec (drop (188 * marker_run p) p)),
             snd (process_spec (drop (188 * marker_run p) p)))"
          using ne ge False by (subst process_spec.simps) (simp add: case_prod_beta)
        with "1.IH"(2)[OF ne ge False] show ?thesis
          by (auto intro: suffix_order.trans suffix_drop)
      qed
    qed
  qed
qed

lemma process_spec_short: "length p < 752 \<Longrightarrow> process_spec p = ([], [])"
proof (induction p rule: process_spec.induct)
  case (1 p)
  show ?case
  proof (cases "p = []")
    case True
    then show ?thesis by (subst process_spec.simps) simp
  next
    case ne: False
    have "marker_run p < 4" using marker_run_bound[of p] "1.prems" by linarith
    moreover from this have "process_spec p = process_spec (drop 1 p)"
      using ne by (subst process_spec.simps) simp
    ultimately show ?thesis using "1.IH"(1)[OF ne] "1.prems" by simp
  qed
qed

lemma process_spec_aligned:
  assumes "ts_aligned p" and "752 \<le> length p"
  shows "process_spec p =
           ([take (188 * (length p div 188)) p], drop (188 * (length p div 188)) p)"
proof -
  have mr: "marker_run p = length p div 188" by (rule marker_run_aligned[OF assms(1)])
  from assms(2) have "4 \<le> length p div 188"
    by (simp add: less_eq_div_iff_mult_less_eq)
  moreover have "length p < 188 * (length p div 188 + 1)"
    using dividend_less_times_div[of 188 "length p"] by simp
  moreover from assms(2) have "p \<noteq> []" by auto
  ultimately show ?thesis using mr by (subst process_spec.simps) simp
qed

lemma process_spec_752: "length p = 752 \<Longrightarrow> snd (process_spec p) = []"
proof -
  assume l: "length p = 752"
  then have ne: "p \<noteq> []" by auto
  show ?thesis
  proof (cases "marker_run p < 4")
    case True
    then have "process_spec p = process_spec (drop 1 p)"
      using ne by (subst process_spec.simps) simp
    moreover have "process_spec (drop 1 p) = ([], [])"
      by (rule process_spec_short) (simp add: l)
    ultimately show ?thesis by simp
  next
    case False
    moreover have "marker_run p \<le> 4" using marker_run_le[of p] l by simp
    ultimately have "marker_run p = 4" by simp
    then show ?thesis using ne l by (subst process_spec.simps) simp
  qed
qed

lemma size_t_of_u32: "unat (ucast (w :: u32) :: size_t) = unat w"
proof -
  have "unat w < 2 ^ 32" using unsigned_less[of w] by simp
  then have "unat w < 2 ^ 64" by simp
  then show ?thesis by (simp add: unsigned_ucast_eq take_bit_nat_eq_self)
qed

lemma u32_of_size_t: "unat (x :: size_t) < 4294967296 \<Longrightarrow> unat (ucast x :: u32) = unat x"
  by (simp add: unsigned_ucast_eq take_bit_nat_eq_self)

lemma stream_process_spec:
  "length p = unat remain \<Longrightarrow> unat remain < window_limit \<Longrightarrow>
   m1ur_device_stream_process p remain =
     Some (Inr (snd (process_spec p), of_nat (length (snd (process_spec p))), fst (process_spec p)))"
  unfolding m1ur_device_stream_process_def by (simp add: stream_loop_spec)

lemma stream_handler_tail_spec:
  assumes len: "length p = unat remain" and lim: "unat remain < window_limit"
    and rb: "length (remain_buf ctx) = 752"
  shows "\<exists>ctx'. stream_handler_tail ctx p remain out1 =
            Some (Inr (ctx', out1 @ fst (process_spec p))) \<and>
          length (remain_buf ctx') = 752 \<and>
          (snd (process_spec p) \<noteq> [] \<longrightarrow>
             unat (remain_len ctx') = length (snd (process_spec p)) \<and>
             take (length (snd (process_spec p))) (remain_buf ctx') = snd (process_spec p)) \<and>
          (snd (process_spec p) = [] \<longrightarrow> ctx' = ctx)"
proof -
  let ?rest = "snd (process_spec p)"
  have rl: "length ?rest < 188" using process_spec_rest[of p] by simp
  have u: "unat (of_nat (length ?rest) :: u32) = length ?rest"
    using rl by (simp add: u32_of_nat)
  have z: "(of_nat (length ?rest) :: u32) = 0 \<longleftrightarrow> ?rest = []"
    using u by (metis length_0_conv unat_0_iff)
  show ?thesis
  proof (cases "?rest = []")
    case True
    then show ?thesis
      using rb by (simp add: stream_handler_tail_def stream_process_spec[OF len lim])
  next
    case False
    have m: "memcpy (remain_buf ctx) 0 ?rest (length ?rest) =
               Inr (?rest @ drop (length ?rest) (remain_buf ctx))"
      using rl rb by (simp add: memcpy_def)
    have "unat (ucast (of_nat (length ?rest) :: u32) :: size_t) = length ?rest"
      by (simp only: size_t_of_u32 u)
    then show ?thesis
      using False z u m rb rl
      by (simp add: stream_handler_tail_def stream_process_spec[OF len lim])
  qed
qed

lemma handler_spec:
  assumes ok: "ctx_ok ctx" and len: "length buf = unat len" and lim: "unat len < chunk_limit"
  shows "\<exists>ctx'. m1ur_device_stream_handler ctx buf len =
            Some (Inr (ctx', handler_out (carry ctx) buf)) \<and>
          ctx_ok ctx' \<and> carry ctx' = handler_carry (carry ctx) buf"
proof -
  let ?n = "unat (remain_len ctx)"
  let ?crl = "ucast (remain_len ctx) :: u32"
  from ok have rb: "length (remain_buf ctx) = 752" and n: "?n < 752"
    by (simp_all add: ctx_ok_def)
  have crl: "unat ?crl = ?n" using n by (simp add: u32_of_size_t)
  have lc: "length (carry ctx) = ?n" using rb n by (simp add: carry_def)
  have wl: "unat len < window_limit" using lim by (simp add: chunk_limit_def window_limit_def)
  show ?thesis
  proof (cases "?n = 0")
    case True
    then have z: "?crl = 0" using crl by (simp add: unat_eq_0)
    have c0: "carry ctx = []" using True by (simp add: carry_def)
    from stream_handler_tail_spec[OF len wl rb, of "[]"] obtain ctx' where
      t: "stream_handler_tail ctx buf len [] = Some (Inr (ctx', [] @ fst (process_spec buf)))"
      and l: "length (remain_buf ctx') = 752"
      and r1: "snd (process_spec buf) \<noteq> [] \<longrightarrow>
             unat (remain_len ctx') = length (snd (process_spec buf)) \<and>
             take (length (snd (process_spec buf))) (remain_buf ctx') = snd (process_spec buf)"
      and r2: "snd (process_spec buf) = [] \<longrightarrow> ctx' = ctx" by blast
    have h: "m1ur_device_stream_handler ctx buf len = Some (Inr (ctx', fst (process_spec buf)))"
      using z t by (simp add: m1ur_device_stream_handler_def)
    have rl: "length (snd (process_spec buf)) < 188" using process_spec_rest[of buf] by simp
    have "ctx_ok ctx' \<and> carry ctx' = snd (process_spec buf)"
    proof (cases "snd (process_spec buf) = []")
      case e: True
      with r2 ok c0 show ?thesis by simp
    next
      case False
      with r1 l rl show ?thesis by (simp add: ctx_ok_def carry_def)
    qed
    with h c0 show ?thesis by (simp add: handler_out_def handler_carry_def)
  next
    case nz: False
    then have z: "?crl \<noteq> 0" using crl by (metis unat_0)
    have cne: "carry ctx \<noteq> []" using lc nz by auto
    have sum: "unat (?crl + len) = ?n + unat len"
    proof -
      have "unat ?crl + unat len < 2 ^ LENGTH(32)"
        using crl n lim by (simp add: chunk_limit_def)
      then show ?thesis using crl by (simp only: unat_add_lem[THEN iffD1])
    qed
    have ge: "(752 :: u32) \<le> ?crl + len \<longleftrightarrow> 752 \<le> ?n + length buf"
      by (simp add: word_le_nat_alt sum len)
    show ?thesis
    proof (cases "752 \<le> ?n + length buf")
      case True
      let ?t = "752 - ?crl"
      have cle: "?crl \<le> 752" using crl n by (simp add: word_le_nat_alt)
      have t: "unat ?t = 752 - ?n" using crl cle by (simp add: unat_sub)
      have tb: "752 - ?n \<le> length buf" using True by simp
      let ?rb = "carry ctx @ take (752 - ?n) buf"
      have m: "memcpy (remain_buf ctx) (unat ?crl) buf (unat ?t) = Inr ?rb"
        using tb rb n by (simp add: memcpy_def crl t carry_def)
      have lrb: "length ?rb = 752"
      proof -
        have "length (take (752 - ?n) buf) = 752 - ?n" using tb by simp
        with lc n show ?thesis by simp
      qed
      have p1: "m1ur_device_stream_process ?rb 752 =
          Some (Inr (snd (process_spec ?rb), of_nat (length (snd (process_spec ?rb))),
                     fst (process_spec ?rb)))"
      proof (rule stream_process_spec)
        show "length ?rb = unat (752 :: u32)" by (simp only: lrb) simp
        show "unat (752 :: u32) < window_limit" by (simp add: window_limit_def)
      qed
      have e1: "snd (process_spec ?rb) = []" by (rule process_spec_752[OF lrb])
      let ?ctx1 = "ctx\<lparr>remain_buf := ?rb, remain_len := 0\<rparr>"
      have tle: "?t \<le> len" using t tb len by (simp add: word_le_nat_alt)
      have l2: "length (drop (unat ?t) buf) = unat (len - ?t)"
        using tle len by (simp add: unat_sub)
      have w2: "unat (len - ?t) < window_limit" using tle wl by (simp add: unat_sub)
      from stream_handler_tail_spec[OF l2 w2, of ?ctx1 "fst (process_spec ?rb)"] lrb
      obtain ctx' where
        tl: "stream_handler_tail ?ctx1 (drop (unat ?t) buf) (len - ?t) (fst (process_spec ?rb)) =
             Some (Inr (ctx', fst (process_spec ?rb) @ fst (process_spec (drop (unat ?t) buf))))"
        and l: "length (remain_buf ctx') = 752"
        and r1: "snd (process_spec (drop (unat ?t) buf)) \<noteq> [] \<longrightarrow>
             unat (remain_len ctx') = length (snd (process_spec (drop (unat ?t) buf))) \<and>
             take (length (snd (process_spec (drop (unat ?t) buf)))) (remain_buf ctx') =
               snd (process_spec (drop (unat ?t) buf))"
        and r2: "snd (process_spec (drop (unat ?t) buf)) = [] \<longrightarrow> ctx' = ?ctx1" by auto
      have h: "m1ur_device_stream_handler ctx buf len =
           Some (Inr (ctx', fst (process_spec ?rb) @ fst (process_spec (drop (unat ?t) buf))))"
        using z ge True m p1 e1 tl by (simp add: m1ur_device_stream_handler_def Let_def)
      have rl: "length (snd (process_spec (drop (unat ?t) buf))) < 188"
        using process_spec_rest[of "drop (unat ?t) buf"] by simp
      have "ctx_ok ctx' \<and> carry ctx' = snd (process_spec (drop (unat ?t) buf))"
      proof (cases "snd (process_spec (drop (unat ?t) buf)) = []")
        case e: True
        with r2 lrb show ?thesis by (simp add: ctx_ok_def carry_def)
      next
        case False
        with r1 l rl show ?thesis by (simp add: ctx_ok_def carry_def)
      qed
      with h cne lc True t show ?thesis by (simp add: handler_out_def handler_carry_def)
    next
      case False
      then have lt: "?n + length buf < 752" by simp
      let ?rb = "take ?n (remain_buf ctx) @ buf @ drop (?n + length buf) (remain_buf ctx)"
      have m: "memcpy (remain_buf ctx) (unat ?crl) buf (unat len) = Inr ?rb"
        using lt rb len by (simp add: memcpy_def crl)
      let ?ctx' = "ctx\<lparr>remain_buf := ?rb, remain_len := remain_len ctx + ucast len\<rparr>"
      have h: "m1ur_device_stream_handler ctx buf len = Some (Inr (?ctx', []))"
        using z ge False m by (simp add: m1ur_device_stream_handler_def Let_def)
      have s64: "unat (remain_len ctx + ucast len) = ?n + length buf"
      proof -
        have "unat (remain_len ctx) + unat (ucast len :: size_t) < 2 ^ LENGTH(64)"
          using lt len by (simp add: size_t_of_u32)
        then have "unat (remain_len ctx + ucast len) = unat (remain_len ctx) + unat (ucast len :: size_t)"
          by (simp only: unat_add_lem[THEN iffD1])
        then show ?thesis by (simp add: size_t_of_u32 len)
      qed
      have "ctx_ok ?ctx'" using lt rb s64 by (simp add: ctx_ok_def)
      moreover have "carry ?ctx' = carry ctx @ buf"
        using lt rb s64 by (simp add: carry_def)
      ultimately show ?thesis using h cne lc False by (simp add: handler_out_def handler_carry_def)
    qed
  qed
qed

section \<open>Aligned streams, short windows and chunked delivery\<close>

lemma length_pkt: "length (pkt x) = 188"
  by (simp add: pkt_def)

lemma length_pkts: "length (concat (map pkt xs)) = 188 * length xs"
  by (induction xs) (simp_all add: length_pkt)

lemma ts_aligned_pkt_append: "ts_aligned ys \<Longrightarrow> ts_aligned (pkt x @ ys)"
  unfolding ts_aligned_iff
proof (intro allI impI)
  fix k
  assume a: "\<forall>k. 188 * k < length ys \<longrightarrow> ys ! (188 * k) = 0x47"
    and k: "188 * k < length (pkt x @ ys)"
  show "(pkt x @ ys) ! (188 * k) = 0x47"
  proof (cases k)
    case 0
    then show ?thesis by (simp add: pkt_def)
  next
    case (Suc j)
    with k have "188 * j < length ys" by (simp add: length_pkt)
    with a have "ys ! (188 * j) = 0x47" by blast
    moreover have "(pkt x @ ys) ! (188 * Suc j) = ys ! (188 * j)"
      by (simp add: nth_append length_pkt)
    ultimately show ?thesis using Suc by simp
  qed
qed

lemma ts_aligned_Nil: "ts_aligned []"
  by (simp add: ts_aligned_def)

lemma ts_aligned_pkts: "ts_aligned (concat (map pkt xs))"
  by (induction xs) (simp_all add: ts_aligned_Nil ts_aligned_pkt_append)


lemma process_spec_Nil: "process_spec [] = ([], [])"
  by (subst process_spec.simps) simp

lemma process_spec_carry_needs_block:
  "snd (process_spec p) \<noteq> [] \<Longrightarrow> fst (process_spec p) \<noteq> []"
proof (induction p rule: process_spec.induct)
  case (1 p)
  show ?case
  proof (cases "p = []")
    case True
    with "1.prems" show ?thesis by (simp add: process_spec_Nil)
  next
    case ne: False
    show ?thesis
    proof (cases "marker_run p < 4")
      case True
      have "process_spec p = process_spec (drop 1 p)"
        using ne True by (subst process_spec.simps) simp
      with "1.IH"(1)[OF ne True] "1.prems" show ?thesis by simp
    next
      case ge: False
      show ?thesis
      proof (cases "length p < 188 * (marker_run p + 1)")
        case True
        have "process_spec p = ([take (188 * marker_run p) p], drop (188 * marker_run p) p)"
          using ne ge True by (subst process_spec.simps) simp
        then show ?thesis by simp
      next
        case False
        have "process_spec p =
            (take (188 * marker_run p) p # fst (process_spec (drop (188 * marker_run p) p)),
             snd (process_spec (drop (188 * marker_run p) p)))"
          using ne ge False by (subst process_spec.simps) (simp add: case_prod_beta)
        then show ?thesis by simp
      qed
    qed
  qed
qed

lemma handler_out_blocks: "\<forall>b\<in>set (handler_out c buf). ts_block b"
  using process_spec_blocks by (auto simp: handler_out_def)

lemma handler_carry_short:
  "length c < 752 \<Longrightarrow> length (handler_carry c buf) < 752 \<and>
     (752 \<le> length c + length buf \<longrightarrow> length (handler_carry c buf) < 188)"
proof -
  assume c: "length c < 752"
  have r: "\<And>p. length (snd (process_spec p)) < 188" using process_spec_rest by blast
  have r': "\<And>p. length (snd (process_spec p)) < 752"
  proof -
    fix p show "length (snd (process_spec p)) < 752" using r[of p] by linarith
  qed
  show ?thesis
  proof (cases "c = []")
    case True
    then show ?thesis using r r' by (simp add: handler_carry_def)
  next
    case False
    then show ?thesis using r r' c by (simp add: handler_carry_def)
  qed
qed

lemma feed_ok:
  "ctx_ok ctx \<Longrightarrow> \<forall>c\<in>set cs. length c < chunk_limit \<Longrightarrow>
   \<exists>ctx' out. feed ctx cs = Some (Inr (ctx', out)) \<and> ctx_ok ctx' \<and> (\<forall>b\<in>set out. ts_block b)"
proof (induction cs arbitrary: ctx)
  case Nil
  then show ?case by simp
next
  case (Cons c cs)
  from Cons.prems(2) have cl: "length c < chunk_limit" by simp
  then have u: "unat (of_nat (length c) :: u32) = length c"
    by (intro u32_of_nat) (simp add: chunk_limit_def)
  from handler_spec[OF Cons.prems(1), of c "of_nat (length c)"] u cl
  obtain ctx1 where h: "m1ur_device_stream_handler ctx c (of_nat (length c)) =
      Some (Inr (ctx1, handler_out (carry ctx) c))" and ok1: "ctx_ok ctx1" by auto
  from Cons.IH[OF ok1] Cons.prems(2)
  obtain ctx2 out2 where f: "feed ctx1 cs = Some (Inr (ctx2, out2))" and ok2: "ctx_ok ctx2"
    and b2: "\<forall>b\<in>set out2. ts_block b" by auto
  have "feed ctx (c # cs) = Some (Inr (ctx2, handler_out (carry ctx) c @ out2))"
    using h f by simp
  with ok2 b2 handler_out_blocks[of "carry ctx" c] show ?case by auto
qed

lemma process_pkts:
  "4 \<le> length xs \<Longrightarrow> 188 * length xs < window_limit \<Longrightarrow>
   m1ur_device_stream_process (concat (map pkt xs)) (of_nat (188 * length xs)) =
     Some (Inr ([], 0, [concat (map pkt xs)]))"
proof -
  assume n: "4 \<le> length xs" and l: "188 * length xs < window_limit"
  let ?p = "concat (map pkt xs)"
  have u: "unat (of_nat (188 * length xs) :: u32) = 188 * length xs"
    using l by (intro u32_of_nat) (simp add: window_limit_def)
  have "process_spec ?p = ([take (188 * (length ?p div 188)) ?p], drop (188 * (length ?p div 188)) ?p)"
    using n by (intro process_spec_aligned ts_aligned_pkts) (simp add: length_pkts)
  then have ps: "process_spec ?p = ([?p], [])" by (simp add: length_pkts)
  have "m1ur_device_stream_process ?p (of_nat (188 * length xs)) =
     Some (Inr (snd (process_spec ?p), of_nat (length (snd (process_spec ?p))), fst (process_spec ?p)))"
    by (rule stream_process_spec) (simp_all only: u length_pkts l)
  then show ?thesis by (simp add: ps)
qed

lemma handler_pkts4:
  "m1ur_device_stream_handler fresh_ctx (concat (map pkt [1, 2, 3, 4])) 752 =
     Some (Inr (fresh_ctx, [concat (map pkt [1, 2, 3, 4])]))"
proof -
  have z: "remain_len fresh_ctx = 0" by (simp add: fresh_ctx_def)
  have p: "m1ur_device_stream_process (concat (map pkt [1, 2, 3, 4])) 752 =
     Some (Inr ([], 0, [concat (map pkt [1, 2, 3, 4])]))"
    using process_pkts[of "[1, 2, 3, 4]"] by (simp add: window_limit_def)
  show ?thesis
    using z p by (simp add: m1ur_device_stream_handler_def stream_handler_tail_def)
qed

lemma stream_process_short:
  "length p = unat remain \<Longrightarrow> unat remain < 752 \<Longrightarrow>
   m1ur_device_stream_process p remain = Some (Inr ([], 0, []))"
proof -
  assume l: "length p = unat remain" and s: "unat remain < 752"
  then have "unat remain < window_limit" by (simp add: window_limit_def)
  from stream_process_spec[OF l this] process_spec_short[of p] l s
  show ?thesis by simp
qed

lemma stream_handler_short:
  "remain_len ctx = 0 \<Longrightarrow> length buf = unat len \<Longrightarrow> unat len < 752 \<Longrightarrow>
   m1ur_device_stream_handler ctx buf len = Some (Inr (ctx, []))"
  by (simp add: m1ur_device_stream_handler_def stream_handler_tail_def stream_process_short)

lemma slots_add: "(188 * q + m) div 188 = q + (m :: nat) div 188"
  by simp







lemma fresh_ctx_carry: "carry fresh_ctx = []"
  by (simp add: carry_def fresh_ctx_def)







lemma ts_aligned_pkts_tail: "ts_aligned t \<Longrightarrow> ts_aligned (concat (map pkt xs) @ t)"
  by (induction xs) (simp_all add: ts_aligned_pkt_append)

lemma process_spec_pkts_tail:
  assumes n: "4 \<le> length xs" and t: "length t < 188" and al: "ts_aligned t"
  shows "process_spec (concat (map pkt xs) @ t) = ([concat (map pkt xs)], t)"
proof -
  let ?p = "concat (map pkt xs) @ t"
  have lp: "length ?p = 188 * length xs + length t" by (simp add: length_pkts)
  have "length t div 188 = 0" using t by simp
  then have d: "length ?p div 188 = length xs" by (simp only: lp slots_add add_0_right)
  have big: "752 \<le> length ?p" using n by (simp add: length_pkts)
  have "process_spec ?p = ([take (188 * (length ?p div 188)) ?p], drop (188 * (length ?p div 188)) ?p)"
    by (rule process_spec_aligned[OF ts_aligned_pkts_tail[OF al] big])
  then have "process_spec ?p = ([take (188 * length xs) ?p], drop (188 * length xs) ?p)"
    by (simp only: d)
  then show ?thesis by (simp add: length_pkts)
qed


lemma process_spec_skip:
  "n \<le> length p \<Longrightarrow> \<forall>k<n. p ! k \<noteq> 0x47 \<Longrightarrow> process_spec p = process_spec (drop n p)"
proof (induction n arbitrary: p)
  case 0
  then show ?case by simp
next
  case (Suc n)
  from Suc.prems have ne: "p \<noteq> []" and h: "p ! 0 \<noteq> 0x47" by auto
  have "marker_run p = 0" using h by (subst marker_run.simps) simp
  then have s: "process_spec p = process_spec (drop 1 p)"
    using ne by (subst process_spec.simps) simp
  have l: "n \<le> length (drop 1 p)" using Suc.prems by simp
  have a: "\<forall>k<n. drop 1 p ! k \<noteq> 0x47" using Suc.prems by simp
  from Suc.IH[OF l a] s show ?case by simp
qed













lemma handler_kept:
  "m1ur_device_stream_handler ctx_one (concat (map pkt [1, 2, 3])) 564 =
     Some (Inr (ctx_kept, []))"
  by (simp add: m1ur_device_stream_handler_def ctx_one_def memcpy_def length_pkt ctx_kept_def)

section \<open>The scan at the wrap-around of the 32-bit product\<close>

lemma scan_reaches_wrap:
  "k \<le> 22845570 \<Longrightarrow>
   sync_scan (replicate 4294967160 0x47) 4294967160 (of_nat (22845570 - k)) =
     Some (Inl OutOfWindow)"
proof (induction k)
  case 0
  have a: "((22845570 :: u32) + 1) * 188 \<le> 4294967160" by simp
  have b: "unat ((22845570 :: u32) * 188) = 4294967160" by simp
  show ?case
    by (subst sync_scan.simps) (simp only: diff_zero of_nat_numeral a b length_replicate, simp)
next
  case (Suc k)
  define j where "j = 22845570 - Suc k"
  have j: "j < 22845570" and jk: "22845570 - k = j + 1" using Suc.prems by (simp_all add: j_def)
  have nxt: "unat (((of_nat j :: u32) + 1) * 188) = 188 * (j + 1)" by (rule u32_slot_next[OF j])
  have cur: "unat ((of_nat j :: u32) * 188) = 188 * j" using j by (simp add: u32_slot)
  have lim: "unat (4294967160 :: u32) = 4294967160" by simp
  have chk: "((of_nat j :: u32) + 1) * 188 \<le> 4294967160"
    unfolding word_le_nat_alt nxt lim using j by simp
  have inw: "188 * j < 4294967160" using j by simp
  have "sync_scan (replicate 4294967160 0x47) 4294967160 (of_nat j) =
        sync_scan (replicate 4294967160 0x47) 4294967160 (of_nat j + 1)"
    using chk inw by (subst sync_scan.simps) (simp add: cur)
  also have "of_nat j + 1 = (of_nat (22845570 - k) :: u32)" by (simp add: jk)
  also have "sync_scan (replicate 4294967160 0x47) 4294967160 (of_nat (22845570 - k)) =
      Some (Inl OutOfWindow)" using Suc by simp
  finally show ?case by (simp only: j_def)
qed

lemma slot_index_even: "unat ((i :: u32) * 188) \<noteq> 4294967295"
proof -
  have "unat (i * 188) = (unat i * 188) mod 2 ^ 32"
    by (simp add: unat_word_ariths)
  moreover have "even ((unat i * 188) mod 2 ^ 32)"
    by (simp add: dvd_mod_iff)
  moreover have "odd (4294967295 :: nat)" by simp
  ultimately show ?thesis by metis
qed

lemma scan_never_some:
  assumes "sync_scan p r i = Some y"
  shows "\<not> (p = replicate 4294967295 0x47 \<and> r = 4294967295)"
proof (rule sync_scan.raw_induct
    [where P = "\<lambda>p r i y. \<not> (p = replicate 4294967295 0x47 \<and> r = 4294967295)", OF _ assms])
  fix scan :: "u8 list \<Rightarrow> u32 \<Rightarrow> u32 \<Rightarrow> (fault + u32 \<times> bool) option"
    and p r i y
  assume IH: "\<And>p r i y. scan p r i = Some y \<Longrightarrow>
      \<not> (p = replicate 4294967295 0x47 \<and> r = 4294967295)"
    and body: "(if (i + 1) * 188 \<le> r then
        (if unat (i * 188) < length p then
           (if p ! unat (i * 188) \<noteq> 0x47 then Some (Inr (i, False))
            else scan p r (i + 1))
         else Some (Inl OutOfWindow))
      else Some (Inr (i, True))) = Some y"
  show "\<not> (p = replicate 4294967295 0x47 \<and> r = 4294967295)"
  proof
    assume "p = replicate 4294967295 0x47 \<and> r = 4294967295"
    then have p: "p = replicate 4294967295 0x47" and r: "r = 4294967295" by simp_all
    have chk: "(i + 1) * 188 \<le> r"
    proof -
      have "unat ((i + 1) * 188) < 2 ^ 32" using unsigned_less[of "(i + 1) * 188"] by simp
      then have "unat ((i + 1) * 188) \<le> unat (4294967295 :: u32)" by simp
      then show ?thesis unfolding r by (simp only: word_le_nat_alt)
    qed
    have inw: "unat (i * 188) < length p"
    proof -
      have "unat (i * 188) < 2 ^ 32" using unsigned_less[of "i * 188"] by simp
      with slot_index_even[of i] show ?thesis by (simp add: p)
    qed
    have m: "p ! unat (i * 188) = 0x47" using inw by (simp add: p)
    from body have "scan p r (i + 1) = Some y"
      by (simp only: chk inw m if_True simp_thms if_False)
    from IH[OF this] p r show False by simp
  qed
qed

lemma scan_never_returns:
  "sync_scan (replicate 4294967295 0x47) 4294967295 i = None"
proof (cases "sync_scan (replicate 4294967295 0x47) 4294967295 i")
  case None
  then show ?thesis .
next
  case (Some y)
  from scan_never_some[OF this] show ?thesis by simp
qed

lemma length_pkts_rep: "length (concat (replicate n (pkt x))) = 188 * n"
  using length_pkts[of "replicate n x"] by simp

lemma ts_aligned_pkts_rep_tail: "ts_aligned t \<Longrightarrow> ts_aligned (concat (replicate n (pkt x)) @ t)"
  using ts_aligned_pkts_tail[of t "replicate n x"] by simp

lemma process_spec_pkts_rep_tail:
  "4 \<le> n \<Longrightarrow> length t < 188 \<Longrightarrow> ts_aligned t \<Longrightarrow>
   process_spec (concat (replicate n (pkt x)) @ t) = ([concat (replicate n (pkt x))], t)"
  using process_spec_pkts_tail[of "replicate n x" t] by simp

lemma length_wrap_window: "length wrap_window = 4294967161"
  by (simp add: wrap_window_def length_pkt length_pkts_rep)

lemma ts_aligned_wrap_window: "ts_aligned wrap_window"
proof -
  have "ts_aligned [0x47 :: u8]" by (simp add: ts_aligned_def)
  then show ?thesis
    unfolding wrap_window_def by (intro ts_aligned_pkt_append ts_aligned_pkts_rep_tail)
qed

lemma wrap_window_last: "wrap_window ! 4294967160 = 0x47"
  by (simp add: wrap_window_def nth_append length_pkt length_pkts_rep)

lemma wrap_window_52: "wrap_window ! 52 = 0"
  by (simp add: wrap_window_def nth_append length_pkt pkt_def)

lemma scan_wraps_to_52:
  "k \<le> 22845570 \<Longrightarrow>
   sync_scan wrap_window 4294967161 (of_nat (22845570 - k)) = Some (Inr (22845571, False))"
proof (induction k)
  case 0
  have a: "((22845570 :: u32) + 1) * 188 \<le> 4294967161" by simp
  have b: "unat ((22845570 :: u32) * 188) = 4294967160" by simp
  have a': "((22845570 :: u32) + 1 + 1) * 188 \<le> 4294967161" by simp
  have b': "unat (((22845570 :: u32) + 1) * 188) = 52" by simp
  have s2: "sync_scan wrap_window 4294967161 (22845570 + 1) = Some (Inr (22845571, False))"
    by (subst sync_scan.simps)
       (simp only: a' b' length_wrap_window wrap_window_52, simp)
  show ?case
    by (subst sync_scan.simps)
       (simp only: diff_zero of_nat_numeral a b length_wrap_window wrap_window_last s2, simp)
next
  case (Suc k)
  define j where "j = 22845570 - Suc k"
  have j: "j < 22845570" and jk: "22845570 - k = j + 1" using Suc.prems by (simp_all add: j_def)
  have nxt: "unat (((of_nat j :: u32) + 1) * 188) = 188 * (j + 1)" by (rule u32_slot_next[OF j])
  have cur: "unat ((of_nat j :: u32) * 188) = 188 * j" using j by (simp add: u32_slot)
  have lim: "unat (4294967161 :: u32) = 4294967161" by simp
  have chk: "((of_nat j :: u32) + 1) * 188 \<le> 4294967161"
    unfolding word_le_nat_alt nxt lim using j by simp
  have inw: "188 * j < length wrap_window" using j by (simp add: length_wrap_window)
  have m: "wrap_window ! (188 * j) = 0x47"
    using ts_aligned_wrap_window inw by (simp only: ts_aligned_iff)
  have "sync_scan wrap_window 4294967161 (of_nat j) =
        sync_scan wrap_window 4294967161 (of_nat j + 1)"
    using chk inw m by (subst sync_scan.simps) (simp add: cur)
  also have "of_nat j + 1 = (of_nat (22845570 - k) :: u32)" by (simp add: jk)
  also have "sync_scan wrap_window 4294967161 (of_nat (22845570 - k)) =
      Some (Inr (22845571, False))" using Suc by simp
  finally show ?case by (simp only: j_def)
qed

section \<open>The poll loops\<close>

lemma run_steps_shape:
  "run_steps hw tr cs = (r, tr') \<Longrightarrow> \<exists>k\<le>length cs. tr' = tr @ take k cs"
proof (induction cs arbitrary: tr)
  case Nil
  then show ?case by simp
next
  case (Cons c cs)
  show ?case
  proof (cases "reply_ret (hw tr c) = 0")
    case True
    with Cons.prems have "run_steps hw (tr @ [c]) cs = (r, tr')" by simp
    from Cons.IH[OF this] obtain k where "k \<le> length cs" "tr' = (tr @ [c]) @ take k cs" by blast
    then have "Suc k \<le> length (c # cs) \<and> tr' = tr @ take (Suc k) (c # cs)" by simp
    then show ?thesis by blast
  next
    case False
    with Cons.prems have "tr' = tr @ take 1 (c # cs)" by simp
    then show ?thesis by (intro exI[of _ 1]) simp
  qed
qed

lemma run_steps_ok:
  "run_steps hw tr cs = (0, tr') \<Longrightarrow> tr' = tr @ cs"
proof (induction cs arbitrary: tr)
  case Nil
  then show ?case by simp
next
  case (Cons c cs)
  show ?case
  proof (cases "reply_ret (hw tr c) = 0")
    case True
    with Cons.prems have "run_steps hw (tr @ [c]) cs = (0, tr')" by simp
    from Cons.IH[OF this] show ?thesis by simp
  next
    case False
    with Cons.prems show ?thesis by simp
  qed
qed


lemma pll_poll_no_lock:
  assumes h: "\<forall>tr'. reply_ret (hw tr' c) = 0 \<longrightarrow> reply_flag (hw tr' c) = Some False"
  shows "\<exists>l'. pll_poll hw c (Suc n) r l tr =
            (reply_ret (hw (tr @ attempts c n) c), l', tr @ attempts c (Suc n)) \<and>
          (reply_ret (hw (tr @ attempts c n) c) = 0 \<longrightarrow> \<not> l')"
proof (induction n arbitrary: r l tr)
  case 0
  let ?r = "reply_ret (hw tr c)"
  let ?l = "case reply_flag (hw tr c) of Some b \<Rightarrow> b | None \<Rightarrow> l"
  have nb: "?r = 0 \<longrightarrow> \<not> ?l" using h by auto
  then have "pll_poll hw c (Suc 0) r l tr = (?r, ?l, tr @ [c, Msleep 10])"
    by (auto simp: Let_def)
  with nb show ?case by simp
next
  case (Suc n)
  let ?r = "reply_ret (hw tr c)"
  let ?l = "case reply_flag (hw tr c) of Some b \<Rightarrow> b | None \<Rightarrow> l"
  have nb: "\<not> (?r = 0 \<and> ?l)" using h by auto
  have step: "pll_poll hw c (Suc (Suc n)) r l tr =
      pll_poll hw c (Suc n) ?r ?l (tr @ [c, Msleep 10])"
    using nb by (auto simp del: pll_poll.simps(2) simp add: pll_poll.simps(2)[of hw c "Suc n"] Let_def)
  have e: "(tr @ [c, Msleep 10]) @ attempts c n = tr @ attempts c (Suc n)"
    and e': "(tr @ [c, Msleep 10]) @ attempts c (Suc n) = tr @ attempts c (Suc (Suc n))"
    by simp_all
  from Suc.IH[of ?r ?l "tr @ [c, Msleep 10]"] show ?case
    unfolding step e e' .
qed

lemma pll_poll_error_exhausted:
  "pll_poll hw c n r0 l0 tr = (r, l, tr') \<Longrightarrow> r \<noteq> 0 \<Longrightarrow> 0 < n \<Longrightarrow>
     tr' = tr @ attempts c n \<and> r = reply_ret (hw (tr @ attempts c (n - 1)) c)"
proof (induction n arbitrary: r0 l0 tr)
  case 0
  then show ?case by simp
next
  case (Suc n)
  let ?r = "reply_ret (hw tr c)"
  let ?l = "case reply_flag (hw tr c) of Some b \<Rightarrow> b | None \<Rightarrow> l0"
  have nb: "\<not> (?r = 0 \<and> ?l)"
    using Suc.prems(1,2) by (auto simp: Let_def)
  then have step: "pll_poll hw c n ?r ?l (tr @ [c, Msleep 10]) = (r, l, tr')"
    using Suc.prems(1) by (auto simp: Let_def)
  show ?case
  proof (cases n)
    case 0
    with step show ?thesis by simp
  next
    case (Suc m)
    with Suc.IH[OF step Suc.prems(2)] have
      "tr' = (tr @ [c, Msleep 10]) @ attempts c n"
      "r = reply_ret (hw ((tr @ [c, Msleep 10]) @ attempts c (n - 1)) c)" by simp_all
    then show ?thesis using Suc by simp
  qed
qed

lemma pll_poll_count:
  "pll_poll hw c n r0 l0 tr = (r, l, tr') \<Longrightarrow> c \<noteq> Msleep 10 \<Longrightarrow>
     count_list tr' c \<le> count_list tr c + n"
proof (induction n arbitrary: r0 l0 tr)
  case 0
  then show ?case by simp
next
  case (Suc n)
  let ?r = "reply_ret (hw tr c)"
  let ?l = "case reply_flag (hw tr c) of Some b \<Rightarrow> b | None \<Rightarrow> l0"
  show ?case
  proof (cases "?r = 0 \<and> ?l")
    case True
    with Suc.prems have "tr' = tr @ [c]" by (auto simp: Let_def)
    then show ?thesis by simp
  next
    case False
    with Suc.prems have "pll_poll hw c n ?r ?l (tr @ [c, Msleep 10]) = (r, l, tr')"
      by (auto simp: Let_def)
    from Suc.IH[OF this Suc.prems(2)] show ?thesis using Suc.prems(2) by simp
  qed
qed

section \<open>Properties of the synchronizer\<close>

text \<open>
  C1. The claim: every block the synchronizer passes to the packet sink has a length that
  is a positive multiple of 188, and each of its 188-byte slots begins with 0x47. The
  slot count \<open>i\<close> and the block length \<open>188 * i\<close> are 32-bit numbers. On a window of
  4294967161 bytes made of 22845570 packets and the sync byte of another, the scan finds
  a sync byte at every slot up to offset 4294967160; the offset of the next slot wraps to
  52, where no sync byte stands, so the scan stops at \<open>i = 22845571\<close> and the block
  passed to the sink has \<open>188 * i = 52\<close> bytes. The pass then skips to the second packet,
  emits the remaining packets and returns.
\<close>

theorem wrapped_scan_emits_partial_block:
  "length wrap_window = unat (4294967161 :: u32) \<and>
   m1ur_device_stream_process wrap_window 4294967161 =
     Some (Inr ([0x47], 1, [take 52 (pkt 0), concat (replicate 22845569 (pkt 0))])) \<and>
   length (take 52 (pkt 0)) = 52 \<and>
   \<not> ts_block (take 52 (pkt 0))"
proof -
  have l: "length wrap_window = unat (4294967161 :: u32)" by (simp add: length_wrap_window)
  have scan: "sync_scan wrap_window 4294967161 0 = Some (Inr (22845571, False))"
    using scan_wraps_to_52[of 22845570] by simp
  have n: "unat (188 * (22845571 :: u32)) = 52" by simp
  have t: "take 52 wrap_window = take 52 (pkt 0)"
    by (simp add: wrap_window_def length_pkt)
  have neg: "(- 187 :: u32) = 4294967109" by simp
  have "stream_loop wrap_window 4294967161 [] =
      stream_loop (drop 52 wrap_window) (- 187) [take 52 (pkt 0)]"
    by (subst stream_loop.simps) (simp add: scan n t length_wrap_window)
  then have step: "stream_loop wrap_window 4294967161 [] =
      stream_loop (drop 52 wrap_window) 4294967109 [take 52 (pkt 0)]"
    by (simp only: neg)
  have l2: "length (drop 52 wrap_window) = unat (4294967109 :: u32)"
    by (simp add: length_wrap_window)
  have w2: "unat (4294967109 :: u32) < window_limit" by (simp add: window_limit_def)
  have d: "drop 52 wrap_window =
      drop 52 (pkt 0) @ concat (replicate 22845569 (pkt 0)) @ [0x47]"
    by (simp add: wrap_window_def length_pkt)
  have z: "\<forall>k<136. (drop 52 (pkt 0) @ concat (replicate 22845569 (pkt 0)) @ [0x47]) ! k \<noteq> 0x47"
    by (simp add: nth_append length_pkt pkt_def)
  have "process_spec (drop 52 wrap_window) =
      process_spec (drop 136 (drop 52 (pkt 0) @ concat (replicate 22845569 (pkt 0)) @ [0x47]))"
    unfolding d by (rule process_spec_skip[OF _ z]) (simp add: length_pkt)
  also have "\<dots> = process_spec (concat (replicate 22845569 (pkt 0)) @ [0x47])"
    by (simp add: length_pkt)
  also have "\<dots> = ([concat (replicate 22845569 (pkt 0))], [0x47])"
    by (rule process_spec_pkts_rep_tail) (simp_all add: ts_aligned_def)
  finally have ps: "process_spec (drop 52 wrap_window) =
      ([concat (replicate 22845569 (pkt 0))], [0x47])" .
  have e: "m1ur_device_stream_process wrap_window 4294967161 =
     Some (Inr ([0x47], 1, [take 52 (pkt 0), concat (replicate 22845569 (pkt 0))]))"
    unfolding m1ur_device_stream_process_def step
    by (simp add: stream_loop_spec[OF l2 w2] ps)
  have b: "length (take 52 (pkt 0)) = 52" by (simp add: length_pkt)
  have nb: "\<not> ts_block (take 52 (pkt 0))" by (simp add: ts_block_def length_pkt)
  show ?thesis by (intro conjI l e b nb)
qed

text \<open>
  C1, as the code has it: on a window shorter than \<open>window_limit\<close> and on chunks
  shorter than \<open>chunk_limit\<close>, the lengths from which the 32-bit arithmetic of the code
  wraps around, every block the synchronizer passes to the packet sink has a length that
  is a positive multiple of 188, and each of its 188-byte slots begins with 0x47. Stated
  for one synchronization pass over a window, for one call of the handler on a context
  whose carry-over is below 752 bytes, and for any sequence of chunks fed to a fresh
  context; in all three the code returns without a fault.
\<close>

theorem emitted_blocks_are_ts_blocks:
  "(length p = unat remain \<and> unat remain < window_limit \<longrightarrow>
      (\<exists>p' remain' out. m1ur_device_stream_process p remain = Some (Inr (p', remain', out)) \<and>
         (\<forall>b\<in>set out. ts_block b))) \<and>
   (ctx_ok ctx \<and> length buf = unat len \<and> unat len < chunk_limit \<longrightarrow>
      (\<exists>ctx' out. m1ur_device_stream_handler ctx buf len = Some (Inr (ctx', out)) \<and>
         (\<forall>b\<in>set out. ts_block b))) \<and>
   ((\<forall>c\<in>set cs. length c < chunk_limit) \<longrightarrow>
      (\<exists>ctx' out. feed fresh_ctx cs = Some (Inr (ctx', out)) \<and>
         (\<forall>b\<in>set out. ts_block b)))"
proof (intro conjI impI; (elim conjE)?)
  assume "length p = unat remain" and "unat remain < window_limit"
  then have "m1ur_device_stream_process p remain =
     Some (Inr (snd (process_spec p), of_nat (length (snd (process_spec p))), fst (process_spec p)))"
    by (rule stream_process_spec)
  with process_spec_blocks[of p]
  show "\<exists>p' remain' out. m1ur_device_stream_process p remain = Some (Inr (p', remain', out)) \<and>
         (\<forall>b\<in>set out. ts_block b)" by blast
next
  assume "ctx_ok ctx" and "length buf = unat len" and "unat len < chunk_limit"
  from handler_spec[OF this] handler_out_blocks[of "carry ctx" buf]
  show "\<exists>ctx' out. m1ur_device_stream_handler ctx buf len = Some (Inr (ctx', out)) \<and>
         (\<forall>b\<in>set out. ts_block b)" by blast
next
  assume "\<forall>c\<in>set cs. length c < chunk_limit"
  moreover have "ctx_ok fresh_ctx" by (simp add: ctx_ok_def fresh_ctx_def)
  ultimately show "\<exists>ctx' out. feed fresh_ctx cs = Some (Inr (ctx', out)) \<and>
         (\<forall>b\<in>set out. ts_block b)"
    using feed_ok by blast
qed

theorem emitted_blocks_are_ts_blocks_witness:
  "length (concat (map pkt [1, 2, 3, 4])) = unat (752 :: u32) \<and>
   unat (752 :: u32) < window_limit \<and> unat (752 :: u32) < chunk_limit \<and>
   ctx_ok fresh_ctx \<and>
   m1ur_device_stream_process (concat (map pkt [1, 2, 3, 4])) 752 =
     Some (Inr ([], 0, [concat (map pkt [1, 2, 3, 4])])) \<and>
   m1ur_device_stream_handler fresh_ctx (concat (map pkt [1, 2, 3, 4])) 752 =
     Some (Inr (fresh_ctx, [concat (map pkt [1, 2, 3, 4])])) \<and>
   ts_block (concat (map pkt [1, 2, 3, 4])) \<and>
   length chunk_a < chunk_limit \<and> length chunk_b < chunk_limit \<and>
   (\<exists>ctx' out. feed fresh_ctx [chunk_a, chunk_b] = Some (Inr (ctx', out)) \<and>
      list_all ts_block out)"
proof -
  have l: "length (concat (map pkt [1, 2, 3, 4])) = unat (752 :: u32)"
    by (simp add: length_pkt)
  have w: "unat (752 :: u32) < window_limit" by (simp add: window_limit_def)
  have c: "unat (752 :: u32) < chunk_limit" by (simp add: chunk_limit_def)
  have ok: "ctx_ok fresh_ctx" by (simp add: ctx_ok_def fresh_ctx_def)
  have e: "m1ur_device_stream_process (concat (map pkt [1, 2, 3, 4])) 752 =
     Some (Inr ([], 0, [concat (map pkt [1, 2, 3, 4])]))"
    using process_pkts[of "[1, 2, 3, 4]"] by (simp add: window_limit_def)
  note h = handler_pkts4
  have la: "length chunk_a < chunk_limit" and lb: "length chunk_b < chunk_limit"
    by (simp_all add: chunk_a_def chunk_b_def length_pkt chunk_limit_def)
  then have all: "\<forall>c\<in>set [chunk_a, chunk_b]. length c < chunk_limit" by simp
  note t = emitted_blocks_are_ts_blocks
    [of "concat (map pkt [1, 2, 3, 4])" 752 fresh_ctx "concat (map pkt [1, 2, 3, 4])" 752
        "[chunk_a, chunk_b]"]
  from t l w e have b: "ts_block (concat (map pkt [1, 2, 3, 4]))" by auto
  from t all have f: "\<exists>ctx' out. feed fresh_ctx [chunk_a, chunk_b] = Some (Inr (ctx', out)) \<and>
      list_all ts_block out" unfolding list_all_iff by blast
  show ?thesis by (intro conjI l w c ok e h b la lb f)
qed




text \<open>
  C3. The claim: when the scan runs out of window before it has confirmed 4 aligned
  packets, the invocation stops and the unresolved bytes are kept in the carry-over
  buffer; an input of fewer than 4 packets emits nothing and stays in carry-over until
  more data arrives. On a context with an empty carry-over the code departs from this:
  three valid packets given as one chunk emit nothing and leave the carry-over empty, and
  a fourth packet delivered afterwards goes the same way, so the four packets never reach
  the sink. The pass sets \<open>sync_remain\<close> when the window ends, but with fewer than 4
  packets counted it does not look at the flag and goes on, byte by byte, to the end of
  the window. The same three packets given to a context that already holds one byte are
  appended to its carry-over by the other branch of the handler.
\<close>

theorem short_input_is_not_carried_over:
  "m1ur_device_stream_handler fresh_ctx (concat (map pkt [1, 2, 3])) 564 =
     Some (Inr (fresh_ctx, [])) \<and>
   feed fresh_ctx [concat (map pkt [1, 2, 3]), pkt 4] = Some (Inr (fresh_ctx, [])) \<and>
   carry fresh_ctx = [] \<and>
   m1ur_device_stream_handler ctx_one (concat (map pkt [1, 2, 3])) 564 =
     Some (Inr (ctx_kept, [])) \<and>
   carry ctx_kept = 0x47 # concat (map pkt [1, 2, 3])"
proof -
  have z: "remain_len fresh_ctx = 0" by (simp add: fresh_ctx_def)
  have a: "m1ur_device_stream_handler fresh_ctx (concat (map pkt [1, 2, 3])) 564 =
     Some (Inr (fresh_ctx, []))"
    by (rule stream_handler_short[OF z]) (simp_all add: length_pkt)
  have b: "m1ur_device_stream_handler fresh_ctx (pkt 4) 188 = Some (Inr (fresh_ctx, []))"
    by (rule stream_handler_short[OF z]) (simp_all add: length_pkt)
  have f: "feed fresh_ctx [concat (map pkt [1, 2, 3]), pkt 4] = Some (Inr (fresh_ctx, []))"
    using a b by (simp add: length_pkt)
  have k: "carry ctx_kept = 0x47 # concat (map pkt [1, 2, 3])"
    by (simp add: carry_def ctx_kept_def length_pkt)
  show ?thesis by (intro conjI a f fresh_ctx_carry handler_kept k)
qed




text \<open>
  C9. The claim: for every window given to \<open>m1ur_device_stream_process\<close>, every read of a
  sync byte is within the window and the function terminates. The guard of the read is
  \<open>(i + 1) * 188 <= remain\<close> in 32-bit unsigned arithmetic. On a window of 4294967160
  bytes that holds 0x47 throughout, the product wraps to 52 at \<open>i = 22845570\<close>, the guard
  holds and the byte at offset 4294967160, the first one beyond the window, is read. On a
  window of 4294967295 bytes of 0x47 the guard holds for every \<open>i\<close> and the scan never
  ends.
\<close>

theorem stream_process_wraps_at_limit:
  "length (replicate 4294967160 (0x47 :: u8)) = unat (4294967160 :: u32) \<and>
   m1ur_device_stream_process (replicate 4294967160 0x47) 4294967160 = Some (Inl OutOfWindow) \<and>
   length (replicate 4294967295 (0x47 :: u8)) = unat (4294967295 :: u32) \<and>
   m1ur_device_stream_process (replicate 4294967295 0x47) 4294967295 = None"
proof -
  have a: "sync_scan (replicate 4294967160 0x47) 4294967160 0 = Some (Inl OutOfWindow)"
    using scan_reaches_wrap[of 22845570] by simp
  have "m1ur_device_stream_process (replicate 4294967160 0x47) 4294967160 = Some (Inl OutOfWindow)"
    unfolding m1ur_device_stream_process_def
    by (subst stream_loop.simps) (simp add: a)
  moreover have "m1ur_device_stream_process (replicate 4294967295 0x47) 4294967295 = None"
    unfolding m1ur_device_stream_process_def
    by (subst stream_loop.simps) (simp add: scan_never_returns)
  ultimately show ?thesis by simp
qed

text \<open>
  C9, as the code has it: for every window shorter than 4294967160 bytes, the scan reads
  sync bytes within the window only (it returns a count \<open>i\<close> with \<open>188 * i\<close> at most the
  window length), and \<open>m1ur_device_stream_process\<close> terminates without a fault, leaving
  fewer than 188 bytes, which are the end of the window. The one-byte advance is taken
  inside \<open>while (remain)\<close> only, so with \<open>remain > 0\<close>: on an empty window the
  function returns at once, with the pointer where it was.
\<close>

theorem stream_process_safe_below_limit:
  "(length p = unat remain \<and> unat remain < window_limit \<longrightarrow>
     (\<exists>i sync_remain. sync_scan p remain 0 = Some (Inr (i, sync_remain)) \<and>
        188 * unat i \<le> length p) \<and>
     (\<exists>p' remain' out. m1ur_device_stream_process p remain = Some (Inr (p', remain', out)) \<and>
        suffix p' p \<and> length p' = unat remain' \<and> length p' < 188)) \<and>
   m1ur_device_stream_process q 0 = Some (Inr (q, 0, []))"
proof (intro impI conjI; (elim conjE)?)
  show "m1ur_device_stream_process q 0 = Some (Inr (q, 0, []))"
    unfolding m1ur_device_stream_process_def by (subst stream_loop.simps) simp
next
  assume len: "length p = unat remain" and lim: "unat remain < window_limit"
  have b: "188 * marker_run p \<le> length p" by (rule marker_run_bound)
  with len lim have "marker_run p < 4294967296" by (simp add: window_limit_def)
  then have u: "unat (of_nat (marker_run p) :: u32) = marker_run p" by (rule u32_of_nat)
  have "sync_scan p remain 0 =
      Some (Inr (of_nat (marker_run p), length p < 188 * (marker_run p + 1)))"
    using sync_scan_run[OF len lim, of 0] by simp
  with b u show "\<exists>i sync_remain. sync_scan p remain 0 = Some (Inr (i, sync_remain)) \<and>
        188 * unat i \<le> length p" by simp
next
  assume len: "length p = unat remain" and lim: "unat remain < window_limit"
  let ?rest = "snd (process_spec p)"
  have r: "length ?rest < 188" and s: "suffix ?rest p" using process_spec_rest[of p] by simp_all
  from r have u: "unat (of_nat (length ?rest) :: u32) = length ?rest"
    by (intro u32_of_nat) simp
  have "m1ur_device_stream_process p remain =
      Some (Inr (?rest, of_nat (length ?rest), fst (process_spec p))) \<and>
    suffix ?rest p \<and> length ?rest = unat (of_nat (length ?rest) :: u32) \<and> length ?rest < 188"
    using stream_process_spec[OF len lim] r s u by simp
  then show "\<exists>p' remain' out. m1ur_device_stream_process p remain = Some (Inr (p', remain', out)) \<and>
        suffix p' p \<and> length p' = unat remain' \<and> length p' < 188"
    by (intro exI)
qed

theorem stream_process_safe_below_limit_witness:
  "length ([0, 1, 2] @ concat (map pkt [1, 2, 3, 4]) @ [0x47, 5]) = unat (757 :: u32) \<and>
   unat (757 :: u32) < window_limit \<and>
   m1ur_device_stream_process ([0, 1, 2] @ concat (map pkt [1, 2, 3, 4]) @ [0x47, 5]) 757 =
     Some (Inr ([0x47, 5], 2, [concat (map pkt [1, 2, 3, 4])])) \<and>
   suffix [0x47, 5] ([0, 1, 2] @ concat (map pkt [1, 2, 3, 4]) @ [0x47, 5])"
proof -
  have l: "length ([0, 1, 2] @ concat (map pkt [1, 2, 3, 4]) @ [0x47, 5]) = unat (757 :: u32)"
    by (simp add: length_pkt)
  have w: "unat (757 :: u32) < window_limit" by (simp add: window_limit_def)
  have e: "m1ur_device_stream_process ([0, 1, 2] @ concat (map pkt [1, 2, 3, 4]) @ [0x47, 5]) 757 =
     Some (Inr ([0x47, 5], 2, [concat (map pkt [1, 2, 3, 4])]))"
    by code_simp
  from stream_process_safe_below_limit
    [of "[0, 1, 2] @ concat (map pkt [1, 2, 3, 4]) @ [0x47, 5]" 757] l w e
  show ?thesis by auto
qed

section \<open>Tuning, stream selection and capture\<close>

lemma run_steps_hw_ok: "run_steps hw_ok tr cs = (0, tr @ cs)"
  by (induction cs arbitrary: tr) (simp_all add: hw_ok_def)

lemma run_steps_hw_unlocked: "run_steps hw_unlocked tr cs = (0, tr @ cs)"
  by (induction cs arbitrary: tr) (simp_all add: hw_unlocked_def)

lemma run_steps_count_poll:
  "run_steps hw tr cs = (r, tr') \<Longrightarrow> c \<notin> set cs \<Longrightarrow> count_list tr' c = count_list tr c"
proof -
  assume a: "run_steps hw tr cs = (r, tr')" and n: "c \<notin> set cs"
  from run_steps_shape[OF a] obtain k where k: "tr' = tr @ take k cs" by blast
  have "c \<notin> set (take k cs)" using n by (meson in_set_takeD)
  then show ?thesis using k by (simp add: count_list_0_iff)
qed

lemma tune_poll_count_t:
  "count_list (snd (m1ur_chrdev_tune hw locked0 tr PTX_ISDB_T_SYSTEM freq)) R850_is_pll_locked
     \<le> count_list tr R850_is_pll_locked + 50"
proof -
  obtain r1 tr1 where s: "run_steps hw tr (tune_t_setup freq) = (r1, tr1)" by force
  obtain r2 l2 tr2 where p: "pll_poll hw R850_is_pll_locked 50 0 locked0 tr1 = (r2, l2, tr2)"
    by (metis prod_cases3)
  obtain r3 tr3 where f: "run_steps hw tr2 tune_t_finish = (r3, tr3)" by force
  have c1: "count_list tr1 R850_is_pll_locked = count_list tr R850_is_pll_locked"
    by (rule run_steps_count_poll[OF s]) (simp add: tune_t_setup_def)
  have c2: "count_list tr2 R850_is_pll_locked \<le> count_list tr1 R850_is_pll_locked + 50"
    by (rule pll_poll_count[OF p]) simp
  have c3: "count_list tr3 R850_is_pll_locked = count_list tr2 R850_is_pll_locked"
    by (rule run_steps_count_poll[OF f]) (simp add: tune_t_finish_def)
  show ?thesis
    using s p f c1 c2 c3 by (cases "r1 = 0") (simp_all add: m1ur_chrdev_tune_def)
qed

lemma tune_poll_count_s:
  "count_list (snd (m1ur_chrdev_tune hw locked0 tr PTX_ISDB_S_SYSTEM freq)) Rt710_is_pll_locked
     \<le> count_list tr Rt710_is_pll_locked + 50"
proof -
  obtain r1 tr1 where s: "run_steps hw tr (tune_s_setup freq) = (r1, tr1)" by force
  obtain r2 l2 tr2 where p: "pll_poll hw Rt710_is_pll_locked 50 0 locked0 tr1 = (r2, l2, tr2)"
    by (metis prod_cases3)
  obtain r3 tr3 where f: "run_steps hw (tr2 @ [Rt710_get_rf_signal_strength])
      [Tc90522_set_agc_s True] = (r3, tr3)" by force
  have c1: "count_list tr1 Rt710_is_pll_locked = count_list tr Rt710_is_pll_locked"
    by (rule run_steps_count_poll[OF s]) (simp add: tune_s_setup_def)
  have c2: "count_list tr2 Rt710_is_pll_locked \<le> count_list tr1 Rt710_is_pll_locked + 50"
    by (rule pll_poll_count[OF p]) simp
  have c3: "count_list tr3 Rt710_is_pll_locked =
      count_list (tr2 @ [Rt710_get_rf_signal_strength]) Rt710_is_pll_locked"
    by (rule run_steps_count_poll[OF f]) simp
  show ?thesis
    using s p f c1 c2 c3 by (cases "r1 = 0") (simp_all add: m1ur_chrdev_tune_def)
qed

lemma pll_poll_dead:
  "c = R850_is_pll_locked \<or> c = Rt710_is_pll_locked \<Longrightarrow>
   pll_poll hw_pll_dead c (Suc n) r l tr = (- 5, l, tr @ attempts c (Suc n))"
proof (induction n arbitrary: r tr)
  case 0
  then show ?case by (auto simp: hw_pll_dead_def)
next
  case (Suc n)
  have "pll_poll hw_pll_dead c (Suc (Suc n)) r l tr =
        pll_poll hw_pll_dead c (Suc n) (- 5) l (tr @ [c, Msleep 10])"
    using Suc.prems
    by (auto simp del: pll_poll.simps(2) simp add: pll_poll.simps(2)[of _ _ "Suc n"] hw_pll_dead_def)
  then show ?case using Suc.IH[OF Suc.prems] by simp
qed



text \<open>
  C5. The claim: when a lock query fails during the poll loop of a tune, the tune aborts
  at once with that error and polls no more. The loop does otherwise: it leaves only on
  a query that succeeds and reports lock, so a failed query is followed by the 10 ms
  sleep and the next query. On hardware whose first query of the terrestrial tuner
  fails with -5 and whose later queries report lock, the tune polls twice and succeeds.
\<close>

theorem tune_poll_failure_not_immediate:
  "m1ur_chrdev_tune hw_flaky False [] PTX_ISDB_T_SYSTEM 473143 =
     (0, tune_t_setup 473143 @
         [R850_is_pll_locked, Msleep 10, R850_is_pll_locked] @ tune_t_finish @ [Msleep 100])"
proof -
  have nin: "R850_is_pll_locked \<notin> set (tune_t_setup 473143)"
    by (simp add: tune_t_setup_def)
  have ok: "\<And>tr c. c \<noteq> R850_is_pll_locked \<Longrightarrow> reply_ret (hw_flaky tr c) = 0"
    by (simp add: hw_flaky_def)
  have rs: "\<And>tr cs. R850_is_pll_locked \<notin> set cs \<Longrightarrow> run_steps hw_flaky tr cs = (0, tr @ cs)"
  proof -
    fix tr cs show "R850_is_pll_locked \<notin> set cs \<Longrightarrow> run_steps hw_flaky tr cs = (0, tr @ cs)"
      by (induction cs arbitrary: tr) (auto simp: ok)
  qed
  have s: "run_steps hw_flaky [] (tune_t_setup 473143) = (0, tune_t_setup 473143)"
    using rs[OF nin, of "[]"] by simp
  have p: "pll_poll hw_flaky R850_is_pll_locked 50 0 False (tune_t_setup 473143) =
          (0, True, tune_t_setup 473143 @ [R850_is_pll_locked, Msleep 10, R850_is_pll_locked])"
    using pll_poll.simps(2) [of hw_flaky R850_is_pll_locked 49 0 False "tune_t_setup 473143"]
      pll_poll.simps(2) [of hw_flaky R850_is_pll_locked 48 "- 5" False
          "tune_t_setup 473143 @ [R850_is_pll_locked, Msleep 10]"] nin
    by (simp add: hw_flaky_def)
  have f: "run_steps hw_flaky
             (tune_t_setup 473143 @ [R850_is_pll_locked, Msleep 10, R850_is_pll_locked])
             tune_t_finish =
           (0, (tune_t_setup 473143 @ [R850_is_pll_locked, Msleep 10, R850_is_pll_locked]) @
               tune_t_finish)"
    by (rule rs) (simp add: tune_t_finish_def)
  show ?thesis
    using s p f by (simp add: m1ur_chrdev_tune_def)
qed

text \<open>
  C5, as the code has it: a failed lock query does not end the tune. When the poll loop
  of a tune, reached after a successful setup, ends with an error, all 50 queries have
  been made, each followed by the sleep, the error is that of the 50th query, and the
  tune returns it without any further call. For both systems.
\<close>

theorem tune_poll_error_only_after_last_attempt:
  "(run_steps hw tr (tune_t_setup freq) = (0, tr1) \<and>
    pll_poll hw R850_is_pll_locked 50 0 locked0 tr1 = (r, l, tr2) \<and> r \<noteq> 0 \<longrightarrow>
      m1ur_chrdev_tune hw locked0 tr PTX_ISDB_T_SYSTEM freq = (r, tr2) \<and>
      tr2 = tr1 @ attempts R850_is_pll_locked 50 \<and>
      r = reply_ret (hw (tr1 @ attempts R850_is_pll_locked 49) R850_is_pll_locked)) \<and>
   (run_steps hw tr (tune_s_setup freq) = (0, tr1) \<and>
    pll_poll hw Rt710_is_pll_locked 50 0 locked0 tr1 = (r, l, tr2) \<and> r \<noteq> 0 \<longrightarrow>
      m1ur_chrdev_tune hw locked0 tr PTX_ISDB_S_SYSTEM freq = (r, tr2) \<and>
      tr2 = tr1 @ attempts Rt710_is_pll_locked 50 \<and>
      r = reply_ret (hw (tr1 @ attempts Rt710_is_pll_locked 49) Rt710_is_pll_locked))"
proof (intro conjI impI; elim conjE)
  assume s: "run_steps hw tr (tune_t_setup freq) = (0, tr1)"
    and p: "pll_poll hw R850_is_pll_locked 50 0 locked0 tr1 = (r, l, tr2)" and r: "r \<noteq> 0"
  show "m1ur_chrdev_tune hw locked0 tr PTX_ISDB_T_SYSTEM freq = (r, tr2)"
    using s p r by (simp add: m1ur_chrdev_tune_def)
  from pll_poll_error_exhausted[OF p r]
  show "tr2 = tr1 @ attempts R850_is_pll_locked 50"
    and "r = reply_ret (hw (tr1 @ attempts R850_is_pll_locked 49) R850_is_pll_locked)"
    by simp_all
next
  assume s: "run_steps hw tr (tune_s_setup freq) = (0, tr1)"
    and p: "pll_poll hw Rt710_is_pll_locked 50 0 locked0 tr1 = (r, l, tr2)" and r: "r \<noteq> 0"
  show "m1ur_chrdev_tune hw locked0 tr PTX_ISDB_S_SYSTEM freq = (r, tr2)"
    using s p r by (simp add: m1ur_chrdev_tune_def)
  from pll_poll_error_exhausted[OF p r]
  show "tr2 = tr1 @ attempts Rt710_is_pll_locked 50"
    and "r = reply_ret (hw (tr1 @ attempts Rt710_is_pll_locked 49) Rt710_is_pll_locked)"
    by simp_all
qed

theorem tune_poll_error_only_after_last_attempt_witness:
  "m1ur_chrdev_tune hw_pll_dead False [] PTX_ISDB_T_SYSTEM 473143 =
     (- 5, tune_t_setup 473143 @ attempts R850_is_pll_locked 50) \<and>
   m1ur_chrdev_tune hw_pll_dead False [] PTX_ISDB_S_SYSTEM 1049480 =
     (- 5, tune_s_setup 1049480 @ attempts Rt710_is_pll_locked 50)"
proof -
  have rt: "run_steps hw_pll_dead [] (tune_t_setup 473143) = (0, tune_t_setup 473143)"
    by (simp add: tune_t_setup_def hw_pll_dead_def)
  have pt: "pll_poll hw_pll_dead R850_is_pll_locked 50 0 False (tune_t_setup 473143) =
      (- 5, False, tune_t_setup 473143 @ attempts R850_is_pll_locked 50)"
    using pll_poll_dead[of R850_is_pll_locked 49 0 False "tune_t_setup 473143"] by simp
  have rs: "run_steps hw_pll_dead [] (tune_s_setup 1049480) = (0, tune_s_setup 1049480)"
    by (simp add: tune_s_setup_def hw_pll_dead_def)
  have ps: "pll_poll hw_pll_dead Rt710_is_pll_locked 50 0 False (tune_s_setup 1049480) =
      (- 5, False, tune_s_setup 1049480 @ attempts Rt710_is_pll_locked 50)"
    using pll_poll_dead[of Rt710_is_pll_locked 49 0 False "tune_s_setup 1049480"] by simp
  have a: "m1ur_chrdev_tune hw_pll_dead False [] PTX_ISDB_T_SYSTEM 473143 =
     (- 5, tune_t_setup 473143 @ attempts R850_is_pll_locked 50)"
    using tune_poll_error_only_after_last_attempt
      [of hw_pll_dead "[]" 473143 "tune_t_setup 473143" False "- 5" False
          "tune_t_setup 473143 @ attempts R850_is_pll_locked 50"]
      rt pt by simp
  have b: "m1ur_chrdev_tune hw_pll_dead False [] PTX_ISDB_S_SYSTEM 1049480 =
     (- 5, tune_s_setup 1049480 @ attempts Rt710_is_pll_locked 50)"
    using tune_poll_error_only_after_last_attempt
      [of hw_pll_dead "[]" 1049480 "tune_s_setup 1049480" False "- 5" False
          "tune_s_setup 1049480 @ attempts Rt710_is_pll_locked 50"]
      rs ps by simp
  show ?thesis by (intro conjI a b)
qed

text \<open>
  C6. The claim: a tune whose lock poll never reports lock makes at most 50 queries at
  10 ms intervals and then returns \<open>-EAGAIN\<close>. The bound holds; the return value is
  another when the last query failed, because after the loop the tune returns the error
  of the last query before it looks at the lock flag. On hardware whose tuner answers the
  first query with "not locked" and fails every later query with -5, no query reports
  lock, and the tune returns -5 after 50 queries.
\<close>

theorem tune_never_locked_returns_poll_error:
  "m1ur_chrdev_tune hw_pll_lost False [] PTX_ISDB_T_SYSTEM 473143 =
     (- 5, tune_t_setup 473143 @ attempts R850_is_pll_locked 50) \<and>
   m1ur_chrdev_tune hw_pll_lost False [] PTX_ISDB_S_SYSTEM 1049480 =
     (- 5, tune_s_setup 1049480 @ attempts Rt710_is_pll_locked 50) \<and>
   reply_flag (hw_pll_lost (tune_t_setup 473143) R850_is_pll_locked) = Some False \<and>
   reply_flag (hw_pll_lost (tune_s_setup 1049480) Rt710_is_pll_locked) = Some False \<and>
   (- 5 :: int) \<noteq> - EAGAIN"
proof -
  have rt: "run_steps hw_pll_lost [] (tune_t_setup 473143) = (0, tune_t_setup 473143)"
    by (simp add: tune_t_setup_def hw_pll_lost_def)
  have rs: "run_steps hw_pll_lost [] (tune_s_setup 1049480) = (0, tune_s_setup 1049480)"
    by (simp add: tune_s_setup_def hw_pll_lost_def)
  have nt: "\<forall>tr'. reply_ret (hw_pll_lost tr' R850_is_pll_locked) = 0 \<longrightarrow>
      reply_flag (hw_pll_lost tr' R850_is_pll_locked) = Some False"
    and ns: "\<forall>tr'. reply_ret (hw_pll_lost tr' Rt710_is_pll_locked) = 0 \<longrightarrow>
      reply_flag (hw_pll_lost tr' Rt710_is_pll_locked) = Some False"
    by (simp_all add: hw_pll_lost_def)
  have et: "reply_ret (hw_pll_lost (tune_t_setup 473143 @ attempts R850_is_pll_locked 49)
      R850_is_pll_locked) = - 5"
    by (simp add: hw_pll_lost_def)
  have es: "reply_ret (hw_pll_lost (tune_s_setup 1049480 @ attempts Rt710_is_pll_locked 49)
      Rt710_is_pll_locked) = - 5"
    by (simp add: hw_pll_lost_def)
  from pll_poll_no_lock[where hw=hw_pll_lost and c=R850_is_pll_locked and n=49 and r=0
      and l=False and tr="tune_t_setup 473143", OF nt] et
  obtain l1 where pt: "pll_poll hw_pll_lost R850_is_pll_locked 50 0 False (tune_t_setup 473143) =
      (- 5, l1, tune_t_setup 473143 @ attempts R850_is_pll_locked 50)"
    by auto
  from pll_poll_no_lock[where hw=hw_pll_lost and c=Rt710_is_pll_locked and n=49 and r=0
      and l=False and tr="tune_s_setup 1049480", OF ns] es
  obtain l2 where ps: "pll_poll hw_pll_lost Rt710_is_pll_locked 50 0 False (tune_s_setup 1049480) =
      (- 5, l2, tune_s_setup 1049480 @ attempts Rt710_is_pll_locked 50)"
    by auto
  have a: "m1ur_chrdev_tune hw_pll_lost False [] PTX_ISDB_T_SYSTEM 473143 =
     (- 5, tune_t_setup 473143 @ attempts R850_is_pll_locked 50)"
    using rt pt by (simp add: m1ur_chrdev_tune_def)
  have b: "m1ur_chrdev_tune hw_pll_lost False [] PTX_ISDB_S_SYSTEM 1049480 =
     (- 5, tune_s_setup 1049480 @ attempts Rt710_is_pll_locked 50)"
    using rs ps by (simp add: m1ur_chrdev_tune_def)
  have c: "reply_flag (hw_pll_lost (tune_t_setup 473143) R850_is_pll_locked) = Some False"
    by (simp add: hw_pll_lost_def tune_t_setup_def)
  have d: "reply_flag (hw_pll_lost (tune_s_setup 1049480) Rt710_is_pll_locked) = Some False"
    by (simp add: hw_pll_lost_def tune_s_setup_def)
  have e: "(- 5 :: int) \<noteq> - EAGAIN" by (simp add: EAGAIN_def)
  show ?thesis by (intro conjI a b c d e)
qed

text \<open>
  C6, as the code has it: in a tune whose setup succeeded and in which no successful lock
  query reports lock, all 50 queries are made, each followed by the 10 ms sleep (500 ms
  in all), and the tune returns \<open>-EAGAIN\<close> when the 50th query succeeded and the error of
  the 50th query otherwise; this for both systems. Whatever the hardware answers, a tune
  makes at most 50 lock queries, so the poll is bounded.
\<close>

theorem tune_not_locked_bounded:
  "((\<forall>tr'. reply_ret (hw tr' R850_is_pll_locked) = 0 \<longrightarrow>
           reply_flag (hw tr' R850_is_pll_locked) = Some False) \<and>
    run_steps hw tr (tune_t_setup freq) = (0, tr1) \<longrightarrow>
      m1ur_chrdev_tune hw locked0 tr PTX_ISDB_T_SYSTEM freq =
        (if reply_ret (hw (tr1 @ attempts R850_is_pll_locked 49) R850_is_pll_locked) = 0
         then - EAGAIN
         else reply_ret (hw (tr1 @ attempts R850_is_pll_locked 49) R850_is_pll_locked),
         tr1 @ attempts R850_is_pll_locked 50)) \<and>
   ((\<forall>tr'. reply_ret (hw tr' Rt710_is_pll_locked) = 0 \<longrightarrow>
           reply_flag (hw tr' Rt710_is_pll_locked) = Some False) \<and>
    run_steps hw tr (tune_s_setup freq) = (0, tr1) \<longrightarrow>
      m1ur_chrdev_tune hw locked0 tr PTX_ISDB_S_SYSTEM freq =
        (if reply_ret (hw (tr1 @ attempts Rt710_is_pll_locked 49) Rt710_is_pll_locked) = 0
         then - EAGAIN
         else reply_ret (hw (tr1 @ attempts Rt710_is_pll_locked 49) Rt710_is_pll_locked),
         tr1 @ attempts Rt710_is_pll_locked 50)) \<and>
   count_list (snd (m1ur_chrdev_tune hw locked0 tr PTX_ISDB_T_SYSTEM freq)) R850_is_pll_locked
     \<le> count_list tr R850_is_pll_locked + 50 \<and>
   count_list (snd (m1ur_chrdev_tune hw locked0 tr PTX_ISDB_S_SYSTEM freq)) Rt710_is_pll_locked
     \<le> count_list tr Rt710_is_pll_locked + 50"
proof (intro conjI impI; (elim conjE)?)
  assume h: "\<forall>tr'. reply_ret (hw tr' R850_is_pll_locked) = 0 \<longrightarrow>
           reply_flag (hw tr' R850_is_pll_locked) = Some False"
    and s: "run_steps hw tr (tune_t_setup freq) = (0, tr1)"
  from pll_poll_no_lock[where hw=hw and n=49 and r=0 and l=locked0 and tr=tr1, OF h]
  obtain l' where p: "pll_poll hw R850_is_pll_locked 50 0 locked0 tr1 =
          (reply_ret (hw (tr1 @ attempts R850_is_pll_locked 49) R850_is_pll_locked), l',
           tr1 @ attempts R850_is_pll_locked 50)"
    and n: "reply_ret (hw (tr1 @ attempts R850_is_pll_locked 49) R850_is_pll_locked) = 0
              \<longrightarrow> \<not> l'"
    by auto
  from s p n show "m1ur_chrdev_tune hw locked0 tr PTX_ISDB_T_SYSTEM freq =
        (if reply_ret (hw (tr1 @ attempts R850_is_pll_locked 49) R850_is_pll_locked) = 0
         then - EAGAIN
         else reply_ret (hw (tr1 @ attempts R850_is_pll_locked 49) R850_is_pll_locked),
         tr1 @ attempts R850_is_pll_locked 50)"
    by (simp add: m1ur_chrdev_tune_def)
next
  assume h: "\<forall>tr'. reply_ret (hw tr' Rt710_is_pll_locked) = 0 \<longrightarrow>
           reply_flag (hw tr' Rt710_is_pll_locked) = Some False"
    and s: "run_steps hw tr (tune_s_setup freq) = (0, tr1)"
  from pll_poll_no_lock[where hw=hw and n=49 and r=0 and l=locked0 and tr=tr1, OF h]
  obtain l' where p: "pll_poll hw Rt710_is_pll_locked 50 0 locked0 tr1 =
          (reply_ret (hw (tr1 @ attempts Rt710_is_pll_locked 49) Rt710_is_pll_locked), l',
           tr1 @ attempts Rt710_is_pll_locked 50)"
    and n: "reply_ret (hw (tr1 @ attempts Rt710_is_pll_locked 49) Rt710_is_pll_locked) = 0
              \<longrightarrow> \<not> l'"
    by auto
  from s p n show "m1ur_chrdev_tune hw locked0 tr PTX_ISDB_S_SYSTEM freq =
        (if reply_ret (hw (tr1 @ attempts Rt710_is_pll_locked 49) Rt710_is_pll_locked) = 0
         then - EAGAIN
         else reply_ret (hw (tr1 @ attempts Rt710_is_pll_locked 49) Rt710_is_pll_locked),
         tr1 @ attempts Rt710_is_pll_locked 50)"
    by (simp add: m1ur_chrdev_tune_def)
next
  show "count_list (snd (m1ur_chrdev_tune hw locked0 tr PTX_ISDB_T_SYSTEM freq)) R850_is_pll_locked
     \<le> count_list tr R850_is_pll_locked + 50" by (rule tune_poll_count_t)
next
  show "count_list (snd (m1ur_chrdev_tune hw locked0 tr PTX_ISDB_S_SYSTEM freq)) Rt710_is_pll_locked
     \<le> count_list tr Rt710_is_pll_locked + 50" by (rule tune_poll_count_s)
qed

theorem tune_not_locked_bounded_witness:
  "m1ur_chrdev_tune hw_unlocked True [] PTX_ISDB_T_SYSTEM 473143 =
     (- 11, tune_t_setup 473143 @ attempts R850_is_pll_locked 50) \<and>
   m1ur_chrdev_tune hw_unlocked True [] PTX_ISDB_S_SYSTEM 1049480 =
     (- 11, tune_s_setup 1049480 @ attempts Rt710_is_pll_locked 50) \<and>
   m1ur_chrdev_tune hw_pll_lost True [] PTX_ISDB_S_SYSTEM 1049480 =
     (- 5, tune_s_setup 1049480 @ attempts Rt710_is_pll_locked 50)"
proof -
  have rs: "run_steps hw_pll_lost [] (tune_s_setup 1049480) = (0, tune_s_setup 1049480)"
    by (simp add: tune_s_setup_def hw_pll_lost_def)
  have ns: "\<forall>tr'. reply_ret (hw_pll_lost tr' Rt710_is_pll_locked) = 0 \<longrightarrow>
      reply_flag (hw_pll_lost tr' Rt710_is_pll_locked) = Some False"
    by (simp add: hw_pll_lost_def)
  have es: "reply_ret (hw_pll_lost (tune_s_setup 1049480 @ attempts Rt710_is_pll_locked 49)
      Rt710_is_pll_locked) = - 5"
    by (simp add: hw_pll_lost_def)
  have a: "m1ur_chrdev_tune hw_unlocked True [] PTX_ISDB_T_SYSTEM 473143 =
     (- 11, tune_t_setup 473143 @ attempts R850_is_pll_locked 50)"
    using tune_not_locked_bounded [of hw_unlocked "[]" 473143 "tune_t_setup 473143" True]
    by (simp add: run_steps_hw_unlocked EAGAIN_def hw_unlocked_def)
  have b: "m1ur_chrdev_tune hw_unlocked True [] PTX_ISDB_S_SYSTEM 1049480 =
     (- 11, tune_s_setup 1049480 @ attempts Rt710_is_pll_locked 50)"
    using tune_not_locked_bounded [of hw_unlocked "[]" 1049480 "tune_s_setup 1049480" True]
    by (simp add: run_steps_hw_unlocked EAGAIN_def hw_unlocked_def)
  have c: "m1ur_chrdev_tune hw_pll_lost True [] PTX_ISDB_S_SYSTEM 1049480 =
     (- 5, tune_s_setup 1049480 @ attempts Rt710_is_pll_locked 50)"
    using tune_not_locked_bounded [of hw_pll_lost "[]" 1049480 "tune_s_setup 1049480" True]
      rs ns es
    by simp
  show ?thesis by (intro conjI a b c)
qed

text \<open>
  C7. The claim: for both systems, enabling automatic gain control is the last step of a
  successful tune, and no register is written after it. This fails for ISDB-T: on
  hardware where every call succeeds, \<open>tc90522_set_agc_t (true)\<close> is followed by three
  register writes to the terrestrial demodulator and a sleep of 100 ms.
\<close>

theorem tune_t_agc_not_final:
  "m1ur_chrdev_tune hw_ok False [] PTX_ISDB_T_SYSTEM 473143 =
     (0, tune_t_setup 473143 @
         [R850_is_pll_locked,
          Tc90522_set_agc_t True,
          Tc90522_write_reg Tc90522_t 0x71 0x01,
          Tc90522_write_reg Tc90522_t 0x72 0x25,
          Tc90522_write_reg Tc90522_t 0x75 0x00,
          Msleep 100])"
proof -
  have "pll_poll hw_ok R850_is_pll_locked 50 0 False (tune_t_setup 473143) =
          (0, True, tune_t_setup 473143 @ [R850_is_pll_locked])"
    using pll_poll.simps(2) [of hw_ok R850_is_pll_locked 49 0 False "tune_t_setup 473143"]
    by (simp add: hw_ok_def)
  then have "m1ur_chrdev_tune hw_ok False [] PTX_ISDB_T_SYSTEM 473143 =
      (0, (tune_t_setup 473143 @ [R850_is_pll_locked]) @ tune_t_finish @ [Msleep 100])"
    by (simp add: m1ur_chrdev_tune_def run_steps_hw_ok)
  then show ?thesis
    by (simp add: tune_t_finish_def)
qed

text \<open>
  C7, as the code has it: a successful ISDB-S tune ends with the signal-strength query
  and then \<open>tc90522_set_agc_s (true)\<close>, its last call. A successful ISDB-T tune ends with
  \<open>tc90522_set_agc_t (true)\<close>, the writes of 0x01, 0x25 and 0x00 to registers 0x71, 0x72
  and 0x75 of the terrestrial demodulator, and a sleep of 100 ms.
\<close>

theorem tune_finish_sequence:
  "(m1ur_chrdev_tune hw locked0 tr PTX_ISDB_S_SYSTEM freq = (0, tr') \<longrightarrow>
      suffix [Rt710_get_rf_signal_strength, Tc90522_set_agc_s True] tr') \<and>
   (m1ur_chrdev_tune hw locked0 tr PTX_ISDB_T_SYSTEM freq = (0, tr') \<longrightarrow>
      suffix [Tc90522_set_agc_t True,
              Tc90522_write_reg Tc90522_t 0x71 0x01,
              Tc90522_write_reg Tc90522_t 0x72 0x25,
              Tc90522_write_reg Tc90522_t 0x75 0x00,
              Msleep 100] tr')"
proof (intro conjI impI)
  assume a: "m1ur_chrdev_tune hw locked0 tr PTX_ISDB_S_SYSTEM freq = (0, tr')"
  obtain r1 tr1 where s: "run_steps hw tr (tune_s_setup freq) = (r1, tr1)" by force
  obtain r2 l2 tr2 where p: "pll_poll hw Rt710_is_pll_locked 50 0 locked0 tr1 = (r2, l2, tr2)"
    by (metis prod_cases3)
  from a s p have "run_steps hw (tr2 @ [Rt710_get_rf_signal_strength]) [Tc90522_set_agc_s True] = (0, tr')"
    by (simp add: m1ur_chrdev_tune_def EAGAIN_def split: if_splits)
  from run_steps_ok[OF this] show "suffix [Rt710_get_rf_signal_strength, Tc90522_set_agc_s True] tr'"
    by (simp add: suffix_def)
next
  assume a: "m1ur_chrdev_tune hw locked0 tr PTX_ISDB_T_SYSTEM freq = (0, tr')"
  obtain r1 tr1 where s: "run_steps hw tr (tune_t_setup freq) = (r1, tr1)" by force
  obtain r2 l2 tr2 where p: "pll_poll hw R850_is_pll_locked 50 0 locked0 tr1 = (r2, l2, tr2)"
    by (metis prod_cases3)
  obtain r3 tr3 where f: "run_steps hw tr2 tune_t_finish = (r3, tr3)" by force
  from a s p f have "r3 = 0" "tr' = tr3 @ [Msleep 100]"
    by (simp_all add: m1ur_chrdev_tune_def EAGAIN_def split: if_splits)
  with run_steps_ok[of hw tr2 tune_t_finish tr3] f have "tr' = tr2 @ tune_t_finish @ [Msleep 100]"
    by simp
  then show "suffix [Tc90522_set_agc_t True,
              Tc90522_write_reg Tc90522_t 0x71 0x01,
              Tc90522_write_reg Tc90522_t 0x72 0x25,
              Tc90522_write_reg Tc90522_t 0x75 0x00,
              Msleep 100] tr'"
    by (simp add: suffix_def tune_t_finish_def)
qed

theorem tune_finish_sequence_witness:
  "m1ur_chrdev_tune hw_ok False [] PTX_ISDB_S_SYSTEM 1049480 =
     (0, tune_s_setup 1049480 @
         [Rt710_is_pll_locked, Rt710_get_rf_signal_strength, Tc90522_set_agc_s True]) \<and>
   suffix [Rt710_get_rf_signal_strength, Tc90522_set_agc_s True]
     (tune_s_setup 1049480 @
         [Rt710_is_pll_locked, Rt710_get_rf_signal_strength, Tc90522_set_agc_s True]) \<and>
   m1ur_chrdev_tune hw_ok False [] PTX_ISDB_T_SYSTEM 473143 =
     (0, (tune_t_setup 473143 @ [R850_is_pll_locked]) @ tune_t_finish @ [Msleep 100]) \<and>
   suffix [Tc90522_set_agc_t True,
           Tc90522_write_reg Tc90522_t 0x71 0x01,
           Tc90522_write_reg Tc90522_t 0x72 0x25,
           Tc90522_write_reg Tc90522_t 0x75 0x00,
           Msleep 100]
     ((tune_t_setup 473143 @ [R850_is_pll_locked]) @ tune_t_finish @ [Msleep 100])"
proof -
  have "pll_poll hw_ok Rt710_is_pll_locked 50 0 False (tune_s_setup 1049480) =
          (0, True, tune_s_setup 1049480 @ [Rt710_is_pll_locked])"
    using pll_poll.simps(2) [of hw_ok Rt710_is_pll_locked 49 0 False "tune_s_setup 1049480"]
    by (simp add: hw_ok_def)
  then have s: "m1ur_chrdev_tune hw_ok False [] PTX_ISDB_S_SYSTEM 1049480 =
     (0, tune_s_setup 1049480 @
         [Rt710_is_pll_locked, Rt710_get_rf_signal_strength, Tc90522_set_agc_s True])"
    by (simp add: m1ur_chrdev_tune_def run_steps_hw_ok hw_ok_def)
  have "pll_poll hw_ok R850_is_pll_locked 50 0 False (tune_t_setup 473143) =
          (0, True, tune_t_setup 473143 @ [R850_is_pll_locked])"
    using pll_poll.simps(2) [of hw_ok R850_is_pll_locked 49 0 False "tune_t_setup 473143"]
    by (simp add: hw_ok_def)
  then have t: "m1ur_chrdev_tune hw_ok False [] PTX_ISDB_T_SYSTEM 473143 =
      (0, (tune_t_setup 473143 @ [R850_is_pll_locked]) @ tune_t_finish @ [Msleep 100])"
    by (simp add: m1ur_chrdev_tune_def run_steps_hw_ok)
  from tune_finish_sequence [of hw_ok False "[]" 1049480
      "tune_s_setup 1049480 @
         [Rt710_is_pll_locked, Rt710_get_rf_signal_strength, Tc90522_set_agc_s True]"] s
  have ss: "suffix [Rt710_get_rf_signal_strength, Tc90522_set_agc_s True]
     (tune_s_setup 1049480 @
         [Rt710_is_pll_locked, Rt710_get_rf_signal_strength, Tc90522_set_agc_s True])"
    by blast
  from tune_finish_sequence [of hw_ok False "[]" 473143
      "(tune_t_setup 473143 @ [R850_is_pll_locked]) @ tune_t_finish @ [Msleep 100]"] t
  have st: "suffix [Tc90522_set_agc_t True,
           Tc90522_write_reg Tc90522_t 0x71 0x01,
           Tc90522_write_reg Tc90522_t 0x72 0x25,
           Tc90522_write_reg Tc90522_t 0x75 0x00,
           Msleep 100]
     ((tune_t_setup 473143 @ [R850_is_pll_locked]) @ tune_t_finish @ [Msleep 100])"
    by blast
  show ?thesis by (intro conjI s ss t st)
qed

text \<open>
  C8. \<open>set_capture (false)\<close> stops the transport's streaming as its first call, whether
  the device is available or not, and returns 0. When the device is unavailable that is
  its only call: no demodulator access is made and the device is unchanged.
\<close>

theorem set_capture_false_stops_streaming_first:
  "prefix (tr @ [Itedtv_bus_stop_streaming])
      (snd (snd (m1ur_chrdev_set_capture hw psb dev tr False))) \<and>
   fst (m1ur_chrdev_set_capture hw psb dev tr False) = 0 \<and>
   (\<not> available dev \<longrightarrow>
      m1ur_chrdev_set_capture hw psb dev tr False = (0, dev, tr @ [Itedtv_bus_stop_streaming]))"
  by (simp add: m1ur_chrdev_set_capture_def m1ur_chrdev_stop_capture_def Let_def
      split: ptx_system_type.split)

theorem set_capture_false_stops_streaming_first_witness:
  "\<not> available dev_gone \<and>
   m1ur_chrdev_set_capture hw_ok 0 dev_gone [] False = (0, dev_gone, [Itedtv_bus_stop_streaming])"
  using set_capture_false_stops_streaming_first [of "[]" hw_ok 0 dev_gone]
  by (simp add: dev_gone_def)



end
